theory Spec2Isabelle
  imports Main
begin

section \<open>Common vocabulary\<close>

text \<open>
  Native objects live at addresses. A pointer is an \<open>addr option\<close>: \<open>None\<close> is the C
  \<open>NULL\<close>. A heap is a partial map from addresses to objects; \<open>free\<close> removes the
  address from the map, and every dereference of an address that is not in the map is a
  fault of the model (in C it is undefined behaviour).
\<close>

type_synonym addr = nat

datatype fault =
    UseAfterFree addr   \<comment> \<open>dereference of an address that is not (or no longer) allocated\<close>
  | AssertFailed        \<comment> \<open>an \<open>assert\<close> of the source does not hold: the process aborts\<close>
  | WouldBlock          \<comment> \<open>\<open>uv_mutex_lock\<close> on a mutex that is held\<close>
  | SignedOverflow      \<comment> \<open>\<open>++\<close> on an \<open>int\<close> that holds \<open>INT_MAX\<close>\<close>

text \<open>
  Modelled from the spec: the status type returned by \<open>call()\<close>. The C type
  \<open>napi_status\<close> is declared in \<open>node_api.h\<close>, which is not part of the repository; the
  three values are the ones section 4.1 of the specification lists (\<open>ok\<close>, \<open>closing\<close>,
  \<open>queue_full\<close>).
\<close>

datatype napi_status = napi_ok | napi_closing | napi_queue_full

text \<open>
  Modelled from the spec: the two modes of \<open>call()\<close> and the two modes of \<open>release()\<close>
  of section 4.1. Their C types are declared in \<open>node_api.h\<close> as well; the source uses
  \<open>napi_tsfn_blocking\<close> and \<open>napi_tsfn_release\<close> only.
\<close>

datatype napi_threadsafe_function_call_mode = napi_tsfn_nonblocking | napi_tsfn_blocking

datatype napi_threadsafe_function_release_mode = napi_tsfn_release | napi_tsfn_abort

section \<open>The even/odd producer example\<close>

subsection \<open>Data\<close>

definition ITERATION_COUNT :: nat where
  "ITERATION_COUNT = 100"

text \<open>\<open>ThreadData\<close>: the thread handle and the parity flag (the \<open>ts_fn\<close> field is the one
  shared bridge of the example).\<close>

record ThreadData =
  thread :: nat
  is_even :: bool

text \<open>\<open>JSData\<close>: the field \<open>value\<close> of the source is \<open>item_value\<close> here.\<close>

record JSData =
  item_value :: int
  thread_to_join :: "addr option"

subsection \<open>The worker thread\<close>

text \<open>
  What \<open>one_thread\<close> does to the bridge, in order. \<open>TsCall item status\<close> is one
  \<open>napi_call_threadsafe_function\<close> in blocking mode together with the status it returned.
  The acquire and the release are asserted to return \<open>napi_ok\<close>.
\<close>

datatype tsfn_op =
    TsAcquire
  | TsCall JSData napi_status
  | TsRelease napi_threadsafe_function_release_mode

text \<open>The item allocated and filled in by iteration \<open>n\<close> of the loop; \<open>td\<close> is the
  address of the thread's own \<open>ThreadData\<close>.\<close>

definition make_item :: "addr \<Rightarrow> ThreadData \<Rightarrow> nat \<Rightarrow> JSData" where
  "make_item td thread_data n =
     \<lparr> item_value = int n * 2 + (if is_even thread_data then 0 else 1),
       thread_to_join = (if n = ITERATION_COUNT - 1 then Some td else None) \<rparr>"

text \<open>
  The \<open>for\<close> loop of \<open>one_thread\<close>. The bridge is outside the thread: \<open>respond n\<close> is the
  status that the \<open>n\<close>-th call returns. The result is the list of operations performed
  from iteration \<open>n\<close> on; a \<open>napi_closing\<close> status returns on the spot, without the
  release.
\<close>

function one_thread_loop ::
  "(nat \<Rightarrow> napi_status) \<Rightarrow> addr \<Rightarrow> ThreadData \<Rightarrow> nat \<Rightarrow> tsfn_op list" where
  "one_thread_loop respond td thread_data n =
     (if n < ITERATION_COUNT then
        (let item = make_item td thread_data n;
             status = respond n
         in if status = napi_closing then [TsCall item status]
            else TsCall item status # one_thread_loop respond td thread_data (n + 1))
      else [TsRelease napi_tsfn_release])"
  by pat_completeness auto
termination
  by (relation "measure (\<lambda>(respond, td, thread_data, n). ITERATION_COUNT - n)") auto

declare one_thread_loop.simps [simp del]

definition one_thread :: "(nat \<Rightarrow> napi_status) \<Rightarrow> addr \<Rightarrow> ThreadData \<Rightarrow> tsfn_op list" where
  "one_thread respond td thread_data = TsAcquire # one_thread_loop respond td thread_data 0"

text \<open>The items that the bridge accepted: the calls that returned \<open>napi_ok\<close>.\<close>

fun enqueued :: "tsfn_op list \<Rightarrow> JSData list" where
  "enqueued [] = []"
| "enqueued (TsCall item status # ops) =
     (if status = napi_ok then item # enqueued ops else enqueued ops)"
| "enqueued (_ # ops) = enqueued ops"

section \<open>The round-trip example\<close>

subsection \<open>Data\<close>

definition REPORT_EVERY :: int where
  "REPORT_EVERY = 1000"

text \<open>\<open>ThreadItem\<close>: the field \<open>next\<close> of the source is \<open>next_item\<close> here.\<close>

record ThreadItem =
  the_prime :: int
  next_item :: "addr option"
  call_has_returned :: bool
  return_value :: bool

text \<open>
  What the code does to the outside, in order: the mutex operations, the reads of a
  record's \<open>call_has_returned\<close> by the producer, allocation, the N-API calls of \<open>CallJs\<close>
  (\<open>napi_new_instance\<close>, \<open>napi_wrap\<close>, \<open>napi_call_function\<close>), the calls into the
  bridge and the thread join.
\<close>

datatype action =
    MutexLock
  | MutexUnlock
  | Examine addr
  | Malloc addr
  | Free addr
  | NewInstance
  | Wrap addr
  | CallFunction int
  | ThreadsafeCall addr
  | ThreadsafeRelease napi_threadsafe_function_release_mode
  | ThreadJoin

text \<open>
  The state shared by the two threads: the fields of \<open>AddonData\<close>
  (\<open>check_status_mutex\<close>, true while held; \<open>tsfn\<close>, true while not \<open>NULL\<close>;
  \<open>js_accepts\<close>), the heap of thread items with the next address \<open>malloc\<close> hands out,
  the items queued in the bridge, and the trace of actions so far.
\<close>

record world =
  check_status_mutex :: bool
  tsfn :: bool
  js_accepts :: bool
  heap :: "addr \<rightharpoonup> ThreadItem"
  brk :: addr
  queue :: "addr list"
  trace :: "action list"

definition emit :: "action list \<Rightarrow> world \<Rightarrow> world" where
  "emit as w = w\<lparr>trace := trace w @ as\<rparr>"

definition uv_mutex_lock :: "world \<Rightarrow> fault + world" where
  "uv_mutex_lock w =
     (if check_status_mutex w then Inl WouldBlock
      else Inr (emit [MutexLock] (w\<lparr>check_status_mutex := True\<rparr>)))"

definition uv_mutex_unlock :: "world \<Rightarrow> world" where
  "uv_mutex_unlock w = emit [MutexUnlock] (w\<lparr>check_status_mutex := False\<rparr>)"

definition free :: "addr \<Rightarrow> world \<Rightarrow> world" where
  "free a w = emit [Free a] (w\<lparr>heap := (heap w)(a := None)\<rparr>)"

subsection \<open>The main thread: \<open>CallJs\<close>, \<open>ThreadFinished\<close>, \<open>StartThread\<close>, \<open>RegisterReturnValue\<close>\<close>

text \<open>
  \<open>CallJs\<close>: \<open>env\<close> and \<open>js_cb\<close> are \<open>None\<close> when the bridge drains its queue at
  teardown. The N-API calls are taken to return \<open>napi_ok\<close>. \<open>napi_wrap\<close> stores the
  pointer; \<open>napi_create_int32\<close> reads \<open>the_prime\<close> through it.
\<close>

definition CallJs :: "nat option \<Rightarrow> nat option \<Rightarrow> addr \<Rightarrow> world \<Rightarrow> fault + world" where
  "CallJs env js_cb data w =
     (if js_accepts w \<and> \<not> (env = None \<or> js_cb = None) then
        (let w1 = emit [NewInstance, Wrap data] w
         in case heap w1 data of
              None \<Rightarrow> Inl (UseAfterFree data)
            | Some item \<Rightarrow> Inr (emit [CallFunction (the_prime item)] w1))
      else Inr w)"

definition ThreadFinished :: "world \<Rightarrow> world" where
  "ThreadFinished w = (emit [ThreadJoin] w)\<lparr>tsfn := False\<rparr>"

text \<open>
  \<open>StartThread\<close>: it asserts that no thread is running (\<open>tsfn\<close> is \<open>NULL\<close>), sets
  \<open>js_accepts\<close>, creates the bridge with an unlimited queue and one reference, and
  starts \<open>PrimeThread\<close>.
\<close>

definition StartThread :: "world \<Rightarrow> fault + world" where
  "StartThread w =
     (if tsfn w then Inl AssertFailed
      else Inr (w\<lparr>js_accepts := True, tsfn := True\<rparr>))"

text \<open>
  \<open>RegisterReturnValue\<close>, after its argument checks: \<open>item\<close> is the pointer that
  \<open>napi_unwrap\<close> returns for the first argument, \<open>v\<close> the boolean of the second.
\<close>

definition RegisterReturnValue :: "addr \<Rightarrow> bool \<Rightarrow> world \<Rightarrow> fault + world" where
  "RegisterReturnValue item v w =
     (let w1 = (if js_accepts w then w\<lparr>js_accepts := v\<rparr> else w)
      in case uv_mutex_lock w1 of
           Inl e \<Rightarrow> Inl e
         | Inr w2 \<Rightarrow>
             (case heap w2 item of
                None \<Rightarrow> Inl (UseAfterFree item)
              | Some it \<Rightarrow>
                  Inr (uv_mutex_unlock
                         (w2\<lparr>heap := (heap w2)(item \<mapsto>
                                 it\<lparr>call_has_returned := True, return_value := v\<rparr>)\<rparr>))))"

subsection \<open>The secondary thread: \<open>PrimeThread\<close>\<close>

text \<open>The inner \<open>for\<close> loop: trial division of \<open>idx_outer\<close> from \<open>idx_inner\<close> upwards. For
  the positive operands of the loop C's \<open>%\<close> is \<open>mod\<close>.\<close>

function trial_division :: "int \<Rightarrow> int \<Rightarrow> int" where
  "trial_division idx_outer idx_inner =
     (if idx_inner < idx_outer \<and> idx_outer mod idx_inner \<noteq> 0
      then trial_division idx_outer (idx_inner + 1)
      else idx_inner)"
  by pat_completeness auto
termination
  by (relation "measure (\<lambda>(idx_outer, idx_inner). nat (idx_outer - idx_inner))") auto

declare trial_division.simps [simp del]

text \<open>The variables of \<open>PrimeThread\<close> that live across iterations.\<close>

record locals =
  idx_outer :: int
  prime_count :: int
  first :: "addr option"

text \<open>
  Lines 121 to 131: allocate a zeroed item, fill it in, put it at the head of the list
  and pass it into the bridge. \<open>status\<close> is what the bridge returns for the call; the
  source asserts \<open>napi_ok\<close>. \<open>malloc\<close> is taken to succeed and to return an address
  never used before.
\<close>

definition new_item :: "napi_status \<Rightarrow> locals \<Rightarrow> world \<Rightarrow> fault + locals \<times> world" where
  "new_item status l w =
     (let current = brk w;
          w1 = emit [Malloc current]
                 (w\<lparr>brk := current + 1,
                    heap := (heap w)(current \<mapsto>
                              \<lparr>the_prime = idx_outer l, next_item = first l,
                               call_has_returned = False, return_value = False\<rparr>)\<rparr>);
          l1 = l\<lparr>first := Some current\<rparr>;
          w2 = emit [ThreadsafeCall current] w1
      in if status = napi_ok then Inr (l1, w2\<lparr>queue := queue w2 @ [current]\<rparr>)
         else Inl AssertFailed)"

text \<open>
  The body of the scanning loop (lines 140 to 150) for the node \<open>c\<close>. The result is
  the new state, the new \<open>first\<close> and the new \<open>returned\<close>.
\<close>

definition scan_node ::
  "addr \<Rightarrow> addr option \<Rightarrow> addr option \<Rightarrow> world \<Rightarrow> fault + world \<times> addr option \<times> addr option" where
  "scan_node c previous head w =
     (case uv_mutex_lock w of
        Inl e \<Rightarrow> Inl e
      | Inr w1 \<Rightarrow>
          (case heap w1 c of
             None \<Rightarrow> Inl (UseAfterFree c)
           | Some item \<Rightarrow>
               (let w2 = emit [Examine c] w1
                in if call_has_returned item then
                     (case previous of
                        Some p \<Rightarrow>
                          (case heap w2 p of
                             None \<Rightarrow> Inl (UseAfterFree p)
                           | Some pitem \<Rightarrow>
                               Inr (uv_mutex_unlock
                                      (w2\<lparr>heap := (heap w2)(p \<mapsto>
                                              pitem\<lparr>next_item := next_item item\<rparr>)\<rparr>),
                                    head, Some c))
                      | None \<Rightarrow> Inr (uv_mutex_unlock w2, next_item item, Some c))
                   else Inr (uv_mutex_unlock w2, head, None))))"

text \<open>
  The scanning loop (lines 136 to 151), entered with \<open>current\<close>, \<open>previous\<close> and
  \<open>returned\<close>; after the body the increment reads \<open>current->next\<close>. The loop follows
  \<open>next\<close> pointers, so it is a partial function: \<open>None\<close> is a loop that does not end.
\<close>

partial_function (option) scan_pending ::
  "addr option \<Rightarrow> addr option \<Rightarrow> addr option \<Rightarrow> addr option \<Rightarrow> world
     \<Rightarrow> (fault + world \<times> addr option \<times> addr option) option" where
  "scan_pending current previous returned head w =
     (case current of
        None \<Rightarrow> Some (Inr (w, head, returned))
      | Some c \<Rightarrow>
          if returned \<noteq> None then Some (Inr (w, head, returned))
          else (case scan_node c previous head w of
                  Inl e \<Rightarrow> Some (Inl e)
                | Inr (w', head', returned') \<Rightarrow>
                    (case heap w' c of
                       None \<Rightarrow> Some (Inl (UseAfterFree c))
                     | Some item \<Rightarrow>
                         scan_pending (next_item item) (Some c) returned' head' w')))"

declare scan_pending.simps [code]

text \<open>The final loop (lines 169 to 173): free every item from \<open>current\<close> on.\<close>

partial_function (option) free_remaining :: "addr option \<Rightarrow> world \<Rightarrow> (fault + world) option" where
  "free_remaining current w =
     (case current of
        None \<Rightarrow> Some (Inr w)
      | Some c \<Rightarrow>
          (case heap w c of
             None \<Rightarrow> Some (Inl (UseAfterFree c))
           | Some item \<Rightarrow> free_remaining (next_item item) (free c w)))"

declare free_remaining.simps [code]

text \<open>How one pass of the outer loop ends: the thread goes on with the next
  \<open>idx_outer\<close>, or it has left the loop, freed its list and released the bridge.\<close>

datatype pass = Running locals world | Stopped world

text \<open>Lines 164 to 178: the cleanup after the loop and the release of the bridge.\<close>

definition leave :: "addr option \<Rightarrow> world \<Rightarrow> (fault + pass) option" where
  "leave head w =
     (case free_remaining head w of
        None \<Rightarrow> None
      | Some (Inl e) \<Rightarrow> Some (Inl e)
      | Some (Inr w') \<Rightarrow> Some (Inr (Stopped (emit [ThreadsafeRelease napi_tsfn_release] w'))))"

text \<open>The loop's \<open>idx_outer++\<close>, for a 32-bit \<open>int\<close>. All other arithmetic of the
  thread stays between 0 and \<open>idx_outer\<close>, so it is exact on \<open>int\<close>.\<close>

definition INT_MAX :: int where
  "INT_MAX = 2147483647"

definition next_pass :: "locals \<Rightarrow> world \<Rightarrow> fault + pass" where
  "next_pass l w =
     (if idx_outer l = INT_MAX then Inl SignedOverflow
      else Inr (Running (l\<lparr>idx_outer := idx_outer l + 1\<rparr>) w))"

text \<open>Lines 153 to 161: what is done with \<open>returned\<close>.\<close>

definition settle :: "addr option \<Rightarrow> locals \<Rightarrow> world \<Rightarrow> (fault + pass) option" where
  "settle returned l w =
     (case returned of
        None \<Rightarrow> Some (next_pass l w)
      | Some r \<Rightarrow>
          (case heap w r of
             None \<Rightarrow> Some (Inl (UseAfterFree r))
           | Some item \<Rightarrow>
               if return_value item then Some (next_pass l (free r w))
               else leave (first l) w))"

text \<open>Lines 134 to 161: the scan of the pending list and what follows from it.\<close>

definition check_pending :: "locals \<Rightarrow> world \<Rightarrow> (fault + pass) option" where
  "check_pending l w =
     (case scan_pending (first l) None None (first l) w of
        None \<Rightarrow> None
      | Some (Inl e) \<Rightarrow> Some (Inl e)
      | Some (Inr (w', head', returned)) \<Rightarrow> settle returned (l\<lparr>first := head'\<rparr>) w')"

text \<open>The rest of a pass once the test of line 119 is decided: \<open>report\<close> is the
  outcome of that test.\<close>

definition pass_rest :: "bool \<Rightarrow> napi_status \<Rightarrow> locals \<Rightarrow> world \<Rightarrow> (fault + pass) option" where
  "pass_rest report status l w =
     (if report then
        (case new_item status l w of
           Inl e \<Rightarrow> Some (Inl e)
         | Inr (l1, w1) \<Rightarrow> check_pending l1 w1)
      else check_pending l w)"

text \<open>
  The test of line 119. \<open>++prime_count\<close> is evaluated only when the left operand of
  \<open>&&\<close> holds. The result is the new \<open>prime_count\<close> and the outcome of the test.
\<close>

definition report_test :: "locals \<Rightarrow> int \<times> bool" where
  "report_test l =
     (let idx_inner = trial_division (idx_outer l) 2
      in if idx_inner \<ge> idx_outer l
         then (prime_count l + 1, (prime_count l + 1) mod REPORT_EVERY = 0)
         else (prime_count l, False))"

text \<open>One pass of the outer loop of \<open>PrimeThread\<close> (lines 109 to 162), and the exit
  path when the pass breaks out of the loop.\<close>

definition PrimeThread_pass :: "napi_status \<Rightarrow> locals \<Rightarrow> world \<Rightarrow> (fault + pass) option" where
  "PrimeThread_pass status l w =
     (case report_test l of
        (count, report) \<Rightarrow> pass_rest report status (l\<lparr>prime_count := count\<rparr>) w)"

definition PrimeThread_start :: locals where
  "PrimeThread_start = \<lparr>idx_outer = 2, prime_count = 0, first = None\<rparr>"

section \<open>The even/odd producer example, continued\<close>

subsection \<open>The marshaller \<open>call_into_javascript\<close>\<close>

text \<open>
  What \<open>call_into_javascript\<close> does to the outside: the call of the JavaScript
  callback with the item's value and the flag that tells whether the thread is
  finished, the join of a thread, and the two kinds of \<open>free\<close>.
\<close>

datatype marshal_action =
    JsCall int bool
  | UvThreadJoin nat
  | FreeThreadData addr
  | FreeItem addr

text \<open>The native memory of the even/odd example: the items, the per-thread data, and
  the trace of actions.\<close>

record memory =
  js_items :: "addr \<rightharpoonup> JSData"
  thread_datas :: "addr \<rightharpoonup> ThreadData"
  performed :: "marshal_action list"

text \<open>
  \<open>call_into_javascript\<close>: \<open>env\<close> and \<open>js_callback\<close> are \<open>None\<close> in cleanup mode. The
  N-API calls are taken to return \<open>napi_ok\<close> or \<open>napi_pending_exception\<close>, as the
  source asserts; what the JavaScript callback itself does is outside this function.
\<close>

definition call_into_javascript ::
  "nat option \<Rightarrow> nat option \<Rightarrow> addr \<Rightarrow> memory \<Rightarrow> fault + memory" where
  "call_into_javascript env js_callback data m =
     (case js_items m data of
        None \<Rightarrow> Inl (UseAfterFree data)
      | Some item \<Rightarrow>
          (let m1 = (if \<not> (env = None \<or> js_callback = None)
                     then m\<lparr>performed := performed m @ [JsCall (item_value item)
                                                  (thread_to_join item \<noteq> None)]\<rparr>
                     else m)
           in case thread_to_join item of
                Some td \<Rightarrow>
                  (case thread_datas m1 td of
                     None \<Rightarrow> Inl (UseAfterFree td)
                   | Some thread_data \<Rightarrow>
                       Inr (m1\<lparr>thread_datas := (thread_datas m1)(td := None),
                               js_items := (js_items m1)(data := None),
                               performed := performed m1 @ [UvThreadJoin (thread thread_data),
                                                  FreeThreadData td, FreeItem data]\<rparr>))
              | None \<Rightarrow>
                  Inr (m1\<lparr>js_items := (js_items m1)(data := None),
                          performed := performed m1 @ [FreeItem data]\<rparr>)))"

section \<open>The bridge\<close>

text \<open>
  The bridge itself (\<open>napi_create_threadsafe_function\<close>,
  \<open>napi_acquire_threadsafe_function\<close>, \<open>napi_call_threadsafe_function\<close>,
  \<open>napi_release_threadsafe_function\<close> and the dispatch of queued items) is not part of
  the repository, which only calls it. The definitions of this section follow sections
  3, 4.1, 4.2, 6 and 7 of the specification.
\<close>

text \<open>Modelled from the spec: the lifecycle states of the bridge, \<open>open\<close>, \<open>closing\<close>
  and \<open>closed\<close> (section 4.1).\<close>

datatype lifecycle = Open | Closing | Closed

text \<open>Modelled from the spec: the error \<open>InvalidState\<close> of section 7, an operation
  attempted after \<open>closed\<close> or a double release.\<close>

datatype violation = InvalidState

text \<open>
  Modelled from the spec: the bridge handle of section 3, with the lifecycle state, the
  producer reference count, the queue and the capacity (0 is unbounded). The two
  callbacks are opaque; the state records what the dispatcher has done with them: the
  items given to the processing callback, the items drained without it, and the number
  of times the finalize callback has been invoked.
\<close>

record 'a bridge =
  lifecycle_state :: lifecycle
  ref_count :: nat
  items :: "'a list"
  max_queue_size :: nat
  processed :: "'a list"
  drained :: "'a list"
  finalize_calls :: nat

text \<open>Modelled from the spec: \<open>create\<close> of section 6; the initial producer count is at
  least 1.\<close>

definition create :: "nat \<Rightarrow> nat \<Rightarrow> 'a bridge" where
  "create maxQueueSize initialRefCount =
     \<lparr>lifecycle_state = Open, ref_count = initialRefCount, items = [],
      max_queue_size = maxQueueSize, processed = [], drained = [], finalize_calls = 0\<rparr>"

text \<open>Modelled from the spec: \<open>acquire\<close> of section 4.1 increments the count; it fails
  when the bridge is already \<open>closed\<close>.\<close>

definition acquire :: "'a bridge \<Rightarrow> violation + 'a bridge" where
  "acquire b =
     (if lifecycle_state b = Closed then Inl InvalidState
      else Inr (b\<lparr>ref_count := ref_count b + 1\<rparr>))"

text \<open>
  Modelled from the spec: \<open>call\<close> of section 4.1. It returns \<open>closing\<close> once teardown has
  begun, and on a full bounded queue \<open>queue_full\<close> in non-blocking mode; in blocking
  mode it does not return then (the result \<open>None\<close>: the caller stays suspended until
  there is space or the bridge is closing). Otherwise the item is enqueued and the
  status is \<open>ok\<close>.
\<close>

definition call ::
  "'a \<Rightarrow> napi_threadsafe_function_call_mode \<Rightarrow> 'a bridge
     \<Rightarrow> violation + napi_status option \<times> 'a bridge" where
  "call item mode b =
     (if lifecycle_state b = Closed then Inl InvalidState
      else if lifecycle_state b = Closing then Inr (Some napi_closing, b)
      else if 0 < max_queue_size b \<and> max_queue_size b \<le> length (items b) then
        (case mode of
           napi_tsfn_nonblocking \<Rightarrow> Inr (Some napi_queue_full, b)
         | napi_tsfn_blocking \<Rightarrow> Inr (None, b))
      else Inr (Some napi_ok, b\<lparr>items := items b @ [item]\<rparr>))"

text \<open>
  Modelled from the spec: \<open>release\<close> of section 4.1 decrements the count and moves to
  \<open>closing\<close> when the count reaches zero; \<open>abort\<close> forces \<open>closing\<close> regardless of the
  count. A release with a count of zero (a double release) and a release after
  \<open>closed\<close> are contract violations.
\<close>

definition release ::
  "napi_threadsafe_function_release_mode \<Rightarrow> 'a bridge \<Rightarrow> violation + 'a bridge" where
  "release mode b =
     (if lifecycle_state b = Closed then Inl InvalidState
      else if ref_count b = 0 then Inl InvalidState
      else Inr (b\<lparr>ref_count := ref_count b - 1,
                   lifecycle_state :=
                     (if mode = napi_tsfn_abort \<or> ref_count b - 1 = 0 then Closing
                      else lifecycle_state b)\<rparr>))"

text \<open>
  Modelled from the spec: one step of the consumer dispatcher of section 4.2. It takes
  the item at the front of the queue and invokes the processing callback unless the
  bridge is \<open>closed\<close>; when it observes the queue empty while the bridge is \<open>closing\<close>
  and the count is zero ("after the queue is fully drained and the reference count is
  zero") it invokes the finalize callback and the bridge is \<open>closed\<close>.
\<close>

definition dispatch :: "'a bridge \<Rightarrow> 'a bridge" where
  "dispatch b =
     (case items b of
        item # rest \<Rightarrow>
          (if lifecycle_state b = Closed
           then b\<lparr>items := rest, drained := drained b @ [item]\<rparr>
           else b\<lparr>items := rest, processed := processed b @ [item]\<rparr>)
      | [] \<Rightarrow>
          (if lifecycle_state b = Closing \<and> ref_count b = 0
           then b\<lparr>lifecycle_state := Closed, finalize_calls := finalize_calls b + 1\<rparr>
           else b))"

text \<open>Modelled from the spec: the operations of the producers and of the consumer,
  taken one at a time in any order (section 5: the queue and the count are under one
  lock).\<close>

datatype 'a bridge_op =
    Acquire
  | Call 'a napi_threadsafe_function_call_mode
  | Release napi_threadsafe_function_release_mode
  | Dispatch

definition apply_op :: "'a bridge_op \<Rightarrow> 'a bridge \<Rightarrow> violation + 'a bridge" where
  "apply_op operation b =
     (case operation of
        Acquire \<Rightarrow> acquire b
      | Call item mode \<Rightarrow>
          (case call item mode b of Inl e \<Rightarrow> Inl e | Inr (status, b') \<Rightarrow> Inr b')
      | Release mode \<Rightarrow> release mode b
      | Dispatch \<Rightarrow> Inr (dispatch b))"

fun run_ops :: "'a bridge_op list \<Rightarrow> 'a bridge \<Rightarrow> violation + 'a bridge" where
  "run_ops [] b = Inr b"
| "run_ops (operation # ops) b =
     (case apply_op operation b of Inl e \<Rightarrow> Inl e | Inr b' \<Rightarrow> run_ops ops b')"


section \<open>Notions used to state the properties\<close>

subsection \<open>The even/odd producer\<close>

text \<open>An item is marked when its \<open>thread_to_join\<close> is not \<open>NULL\<close>.\<close>

definition marked :: "JSData \<Rightarrow> bool" where
  "marked item = (thread_to_join item \<noteq> None)"

text \<open>A bridge that accepts the first \<open>j\<close> calls and is closing from then on.\<close>

definition closing_at :: "nat \<Rightarrow> nat \<Rightarrow> napi_status" where
  "closing_at j k = (if k < j then napi_ok else napi_closing)"

text \<open>A bridge that accepts every call.\<close>

definition always_ok :: "nat \<Rightarrow> napi_status" where
  "always_ok k = napi_ok"

subsection \<open>The prime producer\<close>

definition is_prime :: "int \<Rightarrow> bool" where
  "is_prime p = (2 \<le> p \<and> (\<forall>d\<in>{2..<p}. \<not> d dvd p))"

text \<open>The ordinal of \<open>n\<close> among the primes, counted from 2 upwards: the number of
  primes up to and including \<open>n\<close>.\<close>

definition primes_upto :: "int \<Rightarrow> int" where
  "primes_upto n = int (card {p \<in> {2..n}. is_prime p})"

text \<open>The values of the loop variables with which the thread enters a pass of its
  outer loop: the initial ones, and the ones a pass hands to the next.\<close>

inductive examined :: "locals \<Rightarrow> bool" where
  start: "examined PrimeThread_start"
| pass: "examined l \<Longrightarrow> PrimeThread_pass status l w = Some (Inr (Running l' w'))
           \<Longrightarrow> examined l'"

text \<open>
  \<open>pending h p as\<close>: in the heap \<open>h\<close> the \<open>next\<close> pointers lead from \<open>p\<close> through
  exactly the allocated items \<open>as\<close> to \<open>NULL\<close>.
\<close>

fun pending :: "(addr \<rightharpoonup> ThreadItem) \<Rightarrow> addr option \<Rightarrow> addr list \<Rightarrow> bool" where
  "pending h p [] = (p = None)"
| "pending h p (a # as) =
     (p = Some a \<and> (case h a of None \<Rightarrow> False | Some item \<Rightarrow> pending h (next_item item) as))"

definition resolved :: "(addr \<rightharpoonup> ThreadItem) \<Rightarrow> addr \<Rightarrow> bool" where
  "resolved h a = (case h a of None \<Rightarrow> False | Some item \<Rightarrow> call_has_returned item)"

definition result_of :: "(addr \<rightharpoonup> ThreadItem) \<Rightarrow> addr \<Rightarrow> bool" where
  "result_of h a = (case h a of None \<Rightarrow> False | Some item \<Rightarrow> return_value item)"

text \<open>The trace of one examination of the item at \<open>a\<close>.\<close>

definition visit :: "addr \<Rightarrow> action list" where
  "visit a = [MutexLock, Examine a, MutexUnlock]"

text \<open>Unhooking \<open>a\<close> behind its predecessor \<open>pred\<close> in the heap: the predecessor's
  \<open>next\<close> takes the value of \<open>a\<close>'s. Without a predecessor the heap stays as it is (it
  is the thread's variable \<open>first\<close> that moves).\<close>

definition unhook ::
  "addr option \<Rightarrow> addr \<Rightarrow> (addr \<rightharpoonup> ThreadItem) \<Rightarrow> (addr \<rightharpoonup> ThreadItem)" where
  "unhook pred a h =
     (case pred of
        None \<Rightarrow> h
      | Some p \<Rightarrow>
          (case h p of
             None \<Rightarrow> h
           | Some pitem \<Rightarrow>
               (case h a of
                  None \<Rightarrow> h
                | Some item \<Rightarrow> h(p \<mapsto> pitem\<lparr>next_item := next_item item\<rparr>))))"

text \<open>The \<open>next\<close> pointer stored in the item at \<open>a\<close>.\<close>

definition next_of :: "(addr \<rightharpoonup> ThreadItem) \<Rightarrow> addr \<Rightarrow> addr option" where
  "next_of h a = (case h a of None \<Rightarrow> None | Some item \<Rightarrow> next_item item)"

text \<open>The items examined, in order, according to a trace.\<close>

fun examinations :: "action list \<Rightarrow> addr list" where
  "examinations [] = []"
| "examinations (Examine a # as) = a # examinations as"
| "examinations (_ # as) = examinations as"

text \<open>The N-API calls by which \<open>CallJs\<close> reaches into JavaScript.\<close>

fun js_call :: "action \<Rightarrow> bool" where
  "js_call NewInstance = True"
| "js_call (Wrap a) = True"
| "js_call (CallFunction p) = True"
| "js_call _ = False"

definition js_calls :: "world \<Rightarrow> action list" where
  "js_calls w = filter js_call (trace w)"

subsection \<open>The bridge\<close>

text \<open>What holds of the bridge in every state it reaches: while it is \<open>open\<close> some
  producer holds it; the finalize callback has been invoked once when it is \<open>closed\<close> and
  not at all before; and when it is \<open>closed\<close> the count is zero and the queue is empty.\<close>

definition bridge_inv :: "'a bridge \<Rightarrow> bool" where
  "bridge_inv b =
     ((lifecycle_state b = Open \<longrightarrow> 1 \<le> ref_count b)
      \<and> finalize_calls b = (if lifecycle_state b = Closed then 1 else 0)
      \<and> (lifecycle_state b = Closed \<longrightarrow> ref_count b = 0 \<and> items b = []))"

text \<open>A bridge with capacity 2 whose queue is full.\<close>

definition full_bridge :: "nat bridge" where
  "full_bridge =
     \<lparr>lifecycle_state = Open, ref_count = 1, items = [10, 11], max_queue_size = 2,
      processed = [], drained = [], finalize_calls = 0\<rparr>"

text \<open>The memory of the even/odd example with the last item of a thread: the item is
  marked with the thread's data.\<close>

definition last_item_memory :: memory where
  "last_item_memory =
     \<lparr>js_items = [5 \<mapsto> \<lparr>item_value = 198, thread_to_join = Some 9\<rparr>],
      thread_datas = [9 \<mapsto> \<lparr>thread = 3, is_even = True\<rparr>],
      performed = []\<rparr>"


section \<open>The two threads of the round-trip example together\<close>

text \<open>
  The steps of the whole example, interleaved. The secondary thread runs passes of its
  loop; the main thread delivers the item at the front of the bridge's queue to
  \<open>CallJs\<close>, and JavaScript calls \<open>registerReturnValue\<close>.

  \<^item> \<open>Pass report status\<close>: the secondary thread runs one pass from the test of line
    119 on, the test having the outcome \<open>report\<close> and the bridge answering a call with
    \<open>status\<close>. Which numbers the test lets through is the subject of
    \<open>report_test\<close>; nothing after the test reads \<open>prime_count\<close>, and these steps do
    not follow it.
  \<^item> \<open>Deliver env js_cb\<close>: the bridge takes the item at the front of its queue and
    calls \<open>CallJs\<close> with it.
  \<^item> \<open>Register item v\<close>: JavaScript calls \<open>registerReturnValue\<close> with an object and a
    boolean. \<open>napi_unwrap\<close> is asserted to succeed: it does for an object that
    \<open>CallJs\<close> has wrapped around \<open>item\<close>.
\<close>

datatype event =
    Pass bool napi_status
  | Deliver "nat option" "nat option"
  | Register addr bool

text \<open>The secondary thread's variables (\<open>None\<close> once the thread has left
  \<open>PrimeThread\<close>) and the shared state.\<close>

record system =
  producer :: "locals option"
  shared :: world

definition step :: "event \<Rightarrow> system \<Rightarrow> (fault + system) option" where
  "step e s =
     (case e of
        Pass report status \<Rightarrow>
          (case producer s of
             None \<Rightarrow> Some (Inr s)
           | Some l \<Rightarrow>
               (case pass_rest report status l (shared s) of
                  None \<Rightarrow> None
                | Some (Inl f) \<Rightarrow> Some (Inl f)
                | Some (Inr (Running l' w')) \<Rightarrow> Some (Inr \<lparr>producer = Some l', shared = w'\<rparr>)
                | Some (Inr (Stopped w')) \<Rightarrow> Some (Inr \<lparr>producer = None, shared = w'\<rparr>)))
      | Deliver env js_cb \<Rightarrow>
          (case queue (shared s) of
             [] \<Rightarrow> Some (Inr s)
           | data # rest \<Rightarrow>
               (case CallJs env js_cb data ((shared s)\<lparr>queue := rest\<rparr>) of
                  Inl f \<Rightarrow> Some (Inl f)
                | Inr w' \<Rightarrow> Some (Inr (s\<lparr>shared := w'\<rparr>))))
      | Register item v \<Rightarrow>
          (if Wrap item \<in> set (trace (shared s)) then
             (case RegisterReturnValue item v (shared s) of
                Inl f \<Rightarrow> Some (Inl f)
              | Inr w' \<Rightarrow> Some (Inr (s\<lparr>shared := w'\<rparr>)))
           else Some (Inl AssertFailed)))"

fun run :: "event list \<Rightarrow> system \<Rightarrow> (fault + system) option" where
  "run [] s = Some (Inr s)"
| "run (e # es) s =
     (case step e s of
        None \<Rightarrow> None
      | Some (Inl f) \<Rightarrow> Some (Inl f)
      | Some (Inr s') \<Rightarrow> run es s')"

fun world_of :: "pass \<Rightarrow> world" where
  "world_of (Running l w) = w"
| "world_of (Stopped w) = w"

text \<open>The addon after module initialisation: \<open>AddonData\<close> is zeroed, nothing is
  allocated, nothing is queued.\<close>

definition loaded :: world where
  "loaded = \<lparr>check_status_mutex = False, tsfn = False, js_accepts = False,
              heap = Map.empty, brk = 0, queue = [], trace = []\<rparr>"

text \<open>The state in which \<open>StartThread\<close> leaves the addon before the thread's first
  pass.\<close>

definition empty_world :: world where
  "empty_world = \<lparr>check_status_mutex = False, tsfn = True, js_accepts = True,
                   heap = Map.empty, brk = 0, queue = [], trace = []\<rparr>"

text \<open>The example right after \<open>StartThread\<close>.\<close>

definition initial :: system where
  "initial = \<lparr>producer = Some PrimeThread_start, shared = empty_world\<rparr>"


text \<open>A state with one item, allocated and not yet resolved.\<close>

definition one_item_world :: world where
  "one_item_world =
     empty_world\<lparr>heap := [0 \<mapsto> \<lparr>the_prime = 7919, next_item = None,
                                 call_has_returned = False, return_value = False\<rparr>],
                  brk := 1\<rparr>"

text \<open>
  A run of the example: the thread sends two items and both reach JavaScript;
  JavaScript answers the first with \<open>false\<close>; the thread's next pass sees that answer;
  JavaScript answers the second item.
\<close>

definition two_items_delivered :: "event list" where
  "two_items_delivered =
     [Pass True napi_ok, Deliver (Some 0) (Some 0),
      Pass True napi_ok, Deliver (Some 0) (Some 0)]"

definition late_answer :: "event list" where
  "late_answer = two_items_delivered @ [Register 0 False, Pass False napi_ok, Register 1 True]"

text \<open>A run in which JavaScript answers the same item twice, the second time after
  the thread has seen the first answer.\<close>

definition second_answer :: "event list" where
  "second_answer =
     [Pass True napi_ok, Deliver (Some 0) (Some 0), Register 0 True, Pass False napi_ok,
      Register 0 True]"

text \<open>
  A state of the example in which the thread has sent two items (for the primes 7919
  and 17389): the first has reached JavaScript, the second is still in the queue of the
  bridge.
\<close>

definition two_sent :: system where
  "two_sent =
     \<lparr>producer = Some \<lparr>idx_outer = 17390, prime_count = 2000, first = Some 1\<rparr>,
      shared =
        \<lparr>check_status_mutex = False, tsfn = True, js_accepts = True,
         heap = [0 \<mapsto> \<lparr>the_prime = 7919, next_item = None,
                         call_has_returned = False, return_value = False\<rparr>,
                 1 \<mapsto> \<lparr>the_prime = 17389, next_item = Some 0,
                         call_has_returned = False, return_value = False\<rparr>],
         brk = 2, queue = [1],
         trace = [Malloc 0, ThreadsafeCall 0, NewInstance, Wrap 0, CallFunction 7919,
                  Malloc 1, ThreadsafeCall 1]\<rparr>\<rparr>"

text \<open>
  A state in which the thread has sent three items (for the primes 7919, 17389 and
  27449) that have all reached JavaScript; the second one has been answered, with \<open>v\<close>.
\<close>

definition three_sent :: "bool \<Rightarrow> world" where
  "three_sent v =
     \<lparr>check_status_mutex = False, tsfn = True, js_accepts = v,
      heap = [0 \<mapsto> \<lparr>the_prime = 7919, next_item = None,
                      call_has_returned = False, return_value = False\<rparr>,
              1 \<mapsto> \<lparr>the_prime = 17389, next_item = Some 0,
                      call_has_returned = True, return_value = v\<rparr>,
              2 \<mapsto> \<lparr>the_prime = 27449, next_item = Some 1,
                      call_has_returned = False, return_value = False\<rparr>],
      brk = 3, queue = [], trace = []\<rparr>"

definition three_locals :: locals where
  "three_locals = \<lparr>idx_outer = 27450, prime_count = 3000, first = Some 2\<rparr>"

text \<open>What one run of the scanning loop over the list at \<open>p\<close> examines, in order, and
  what it leaves in \<open>returned\<close>.\<close>

definition examined_by_scan :: "addr option \<Rightarrow> world \<Rightarrow> (addr list \<times> addr option) option" where
  "examined_by_scan p w =
     (case scan_pending p None None p w of
        Some (Inr (w1, head1, returned)) \<Rightarrow>
          Some (examinations (drop (length (trace w)) (trace w1)), returned)
      | _ \<Rightarrow> None)"

text \<open>
  A state of the example is well formed when the mutex is free and, while the thread
  runs, its variable \<open>first\<close> leads through a list of distinct allocated items, all at
  addresses that \<open>malloc\<close> has handed out.
\<close>

definition well_formed :: "system \<Rightarrow> bool" where
  "well_formed s =
     (\<not> check_status_mutex (shared s)
      \<and> (case producer s of
            None \<Rightarrow> True
          | Some l \<Rightarrow>
              (\<exists>xs. pending (heap (shared s)) (first l) xs \<and> distinct xs
                    \<and> (\<forall>x\<in>set xs. x < brk (shared s)))))"

text \<open>
  The shared state once the block of lines 120 to 132 has run with a call that
  returned \<open>napi_ok\<close>: a new item, for the number \<open>idx_outer\<close>, sits at the address
  \<open>brk w\<close> in front of the list and at the back of the queue of the bridge.
\<close>

definition with_item :: "locals \<Rightarrow> world \<Rightarrow> world" where
  "with_item l w =
     emit [Malloc (brk w), ThreadsafeCall (brk w)]
       (w\<lparr>brk := brk w + 1,
          heap := (heap w)(brk w \<mapsto> \<lparr>the_prime = idx_outer l, next_item = first l,
                                     call_has_returned = False, return_value = False\<rparr>),
          queue := queue w @ [brk w]\<rparr>)"

text \<open>The items a pass adds in front of the list: the new one when the test of line
  119 succeeded, none otherwise.\<close>

definition added :: "bool \<Rightarrow> world \<Rightarrow> addr list" where
  "added report w = (if report then [brk w] else [])"

text \<open>The loop variables at the pass for 7919, the thousandth prime.\<close>

definition at_7919 :: locals where
  "at_7919 = \<lparr>idx_outer = 7919, prime_count = 999, first = None\<rparr>"

text \<open>The loop variables at the pass for 37813, the four thousandth prime, with the
  three items of \<open>three_sent\<close> behind it.\<close>

definition reporting_locals :: locals where
  "reporting_locals = \<lparr>idx_outer = 37813, prime_count = 3999, first = Some 2\<rparr>"


section \<open>Auxiliary facts\<close>

subsection \<open>The trace and the mutex\<close>

lemma heap_emit [simp]: "heap (emit as w) = heap w"
  and mutex_emit [simp]: "check_status_mutex (emit as w) = check_status_mutex w"
  and queue_emit [simp]: "queue (emit as w) = queue w"
  and js_accepts_emit [simp]: "js_accepts (emit as w) = js_accepts w"
  and brk_emit [simp]: "brk (emit as w) = brk w"
  and tsfn_emit [simp]: "tsfn (emit as w) = tsfn w"
  and trace_emit [simp]: "trace (emit as w) = trace w @ as"
  by (simp_all add: emit_def)

lemma emit_emit [simp]: "emit as (emit bs w) = emit (bs @ as) w"
  by (simp add: emit_def)

lemma emit_Nil [simp]: "emit [] w = w"
  by (simp add: emit_def)

lemma unlock_emit:
  "uv_mutex_unlock (emit as w) = emit (as @ [MutexUnlock]) (w\<lparr>check_status_mutex := False\<rparr>)"
  by (simp add: uv_mutex_unlock_def emit_def)

lemma mutex_reset: "\<not> check_status_mutex w \<Longrightarrow> w\<lparr>check_status_mutex := False\<rparr> = w"
  by (cases w) simp

lemma StartThread_loaded: "StartThread loaded = Inr empty_world"
  by (simp add: StartThread_def loaded_def empty_world_def)

subsection \<open>Induction over the two loops on the pending list\<close>

lemmas scan_pending_induct = scan_pending.raw_induct[rotated 1, consumes 1, case_names step]
lemmas free_remaining_induct = free_remaining.raw_induct[rotated 1, consumes 1, case_names step]

lemma scan_empty: "scan_pending None previous returned head w = Some (Inr (w, head, returned))"
  by (subst scan_pending.simps) simp

subsection \<open>The worker loop of the even/odd producer\<close>

lemma loop_done: "\<not> n < ITERATION_COUNT \<Longrightarrow>
    one_thread_loop respond td d n = [TsRelease napi_tsfn_release]"
  by (subst one_thread_loop.simps) simp

lemma loop_closing: "n < ITERATION_COUNT \<Longrightarrow> respond n = napi_closing \<Longrightarrow>
    one_thread_loop respond td d n = [TsCall (make_item td d n) napi_closing]"
  by (subst one_thread_loop.simps) (simp add: Let_def)

lemma loop_go_on: "n < ITERATION_COUNT \<Longrightarrow> respond n \<noteq> napi_closing \<Longrightarrow>
    one_thread_loop respond td d n =
      TsCall (make_item td d n) (respond n) # one_thread_loop respond td d (n + 1)"
  by (subst one_thread_loop.simps) (simp add: Let_def)

lemma loop_enqueued:
  assumes blocking: "\<forall>k. respond k \<noteq> napi_queue_full"
  shows "n \<le> ITERATION_COUNT \<Longrightarrow>
     \<exists>m. n \<le> m \<and> m \<le> ITERATION_COUNT
        \<and> enqueued (one_thread_loop respond td d n) = map (make_item td d) [n..<m]
        \<and> (\<forall>k. n \<le> k \<and> k < m \<longrightarrow> respond k = napi_ok)
        \<and> (m < ITERATION_COUNT \<longrightarrow> respond m = napi_closing)"
proof (induction j \<equiv> "ITERATION_COUNT - n" arbitrary: n)
  case 0
  then have "n = ITERATION_COUNT" by simp
  then show ?case by (intro exI[of _ n]) (auto simp: loop_done)
next
  case (Suc j)
  then have lt: "n < ITERATION_COUNT" by simp
  show ?case
  proof (cases "respond n = napi_closing")
    case True
    then show ?thesis using lt by (intro exI[of _ n]) (auto simp: loop_closing)
  next
    case False
    with blocking have ok: "respond n = napi_ok" by (cases "respond n") auto
    have "j = ITERATION_COUNT - (n + 1)" "n + 1 \<le> ITERATION_COUNT"
      using Suc.hyps(2) lt by simp_all
    from Suc.hyps(1)[OF this] obtain m where m: "n + 1 \<le> m" "m \<le> ITERATION_COUNT"
        "enqueued (one_thread_loop respond td d (n + 1)) = map (make_item td d) [n + 1..<m]"
        "\<forall>k. n + 1 \<le> k \<and> k < m \<longrightarrow> respond k = napi_ok"
        "m < ITERATION_COUNT \<longrightarrow> respond m = napi_closing"
      by blast
    have upt: "[n..<m] = n # [n + 1..<m]" using m(1) by (simp add: upt_conv_Cons)
    have all: "\<forall>k. n \<le> k \<and> k < m \<longrightarrow> respond k = napi_ok"
    proof (intro allI impI)
      fix k assume "n \<le> k \<and> k < m"
      then have "k = n \<or> (n + 1 \<le> k \<and> k < m)" by auto
      then show "respond k = napi_ok" using ok m(4) by blast
    qed
    have enq: "enqueued (one_thread_loop respond td d n) = map (make_item td d) [n..<m]"
      using lt False ok m(3) upt by (simp add: loop_go_on)
    show ?thesis using m(1,2,5) enq all by (intro exI[of _ m]) simp
  qed
qed

lemma loop_stops_at_closing:
  "one_thread_loop respond td d n = pre @ TsCall item napi_closing # post \<Longrightarrow> post = []"
proof (induction j \<equiv> "ITERATION_COUNT - n" arbitrary: n pre)
  case 0
  then have "\<not> n < ITERATION_COUNT" by simp
  with 0(2) show ?case by (cases pre) (simp_all add: loop_done)
next
  case (Suc j)
  then have lt: "n < ITERATION_COUNT" by simp
  show ?case
  proof (cases "respond n = napi_closing")
    case True
    with Suc.prems lt show ?thesis by (cases pre) (simp_all add: loop_closing)
  next
    case False
    with Suc.prems lt
    have eq: "TsCall (make_item td d n) (respond n) # one_thread_loop respond td d (n + 1)
                = pre @ TsCall item napi_closing # post"
      by (simp add: loop_go_on)
    show ?thesis
    proof (cases pre)
      case Nil
      with eq False show ?thesis by simp
    next
      case (Cons p pre')
      with eq have "one_thread_loop respond td d (n + 1) = pre' @ TsCall item napi_closing # post"
        by simp
      moreover have "j = ITERATION_COUNT - (n + 1)" using Suc.hyps(2) by simp
      ultimately show ?thesis using Suc.hyps(1) by blast
    qed
  qed
qed

subsection \<open>Trial division and the count of primes\<close>

lemma trial_division_full:
  "2 \<le> i \<Longrightarrow> i \<le> n \<Longrightarrow> (trial_division n i \<ge> n) = (\<forall>d\<in>{i..<n}. \<not> d dvd n)"
proof (induction n i rule: trial_division.induct)
  case (1 n i)
  show ?case
  proof (cases "i < n")
    case False
    with 1 have "i = n" by simp
    then show ?thesis by (subst trial_division.simps) simp
  next
    case lt: True
    show ?thesis
    proof (cases "n mod i = 0")
      case True
      then have "i dvd n" by (simp add: dvd_eq_mod_eq_0)
      moreover have "trial_division n i = i" using True by (subst trial_division.simps) simp
      ultimately show ?thesis using lt by auto
    next
      case False
      then have nd: "\<not> i dvd n" by (simp add: dvd_eq_mod_eq_0)
      have eq: "trial_division n i = trial_division n (i + 1)"
        using False lt by (subst trial_division.simps) simp
      have "(trial_division n (i + 1) \<ge> n) = (\<forall>d\<in>{i + 1..<n}. \<not> d dvd n)"
        using 1 lt False by simp
      moreover have "{i..<n} = insert i {i + 1..<n}" using lt by auto
      ultimately show ?thesis using nd eq by simp
    qed
  qed
qed

lemma trial_division_prime: "2 \<le> n \<Longrightarrow> (trial_division n 2 \<ge> n) = is_prime n"
  by (simp add: trial_division_full is_prime_def)

lemma primes_upto_step:
  "2 \<le> n \<Longrightarrow> primes_upto n = primes_upto (n - 1) + (if is_prime n then 1 else 0)"
proof -
  assume n: "2 \<le> n"
  have split: "{2..n} = insert n {2..n - 1}" using n by auto
  have fin: "finite {p \<in> {2..n - 1}. is_prime p}"
    by (rule finite_subset[of _ "{2..n - 1}"]) auto
  have notin: "n \<notin> {p \<in> {2..n - 1}. is_prime p}" by simp
  show ?thesis
  proof (cases "is_prime n")
    case True
    then have "{p \<in> {2..n}. is_prime p} = insert n {p \<in> {2..n - 1}. is_prime p}"
      using split by auto
    then show ?thesis using True fin notin by (simp add: primes_upto_def)
  next
    case False
    then have "{p \<in> {2..n}. is_prime p} = {p \<in> {2..n - 1}. is_prime p}"
      using split by auto
    then show ?thesis using False by (simp add: primes_upto_def)
  qed
qed

lemma report_test_eq:
  assumes "2 \<le> idx_outer l" and "prime_count l = primes_upto (idx_outer l - 1)"
  shows "report_test l =
           (primes_upto (idx_outer l),
            is_prime (idx_outer l) \<and> primes_upto (idx_outer l) mod REPORT_EVERY = 0)"
  using assms
  by (simp add: report_test_def Let_def trial_division_prime primes_upto_step)

lemma pass_locals:
  assumes "PrimeThread_pass status l w = Some (Inr (Running l' w'))"
  shows "idx_outer l' = idx_outer l + 1 \<and> prime_count l' = fst (report_test l)"
  using assms
  by (auto simp: PrimeThread_pass_def pass_rest_def check_pending_def settle_def next_pass_def
        leave_def new_item_def Let_def
      split: prod.splits if_splits sum.splits option.splits)

lemma examined_invariant:
  "examined l \<Longrightarrow> 2 \<le> idx_outer l \<and> prime_count l = primes_upto (idx_outer l - 1)"
proof (induction rule: examined.induct)
  case start
  show ?case by (simp add: PrimeThread_start_def primes_upto_def)
next
  case (pass l status w l' w')
  then show ?case using pass_locals[OF pass.hyps(2)] by (simp add: report_test_eq)
qed

subsection \<open>The queue of the bridge is touched by \<open>new_item\<close> only\<close>

lemma scan_node_queue:
  "scan_node c previous head w = Inr (w', head', returned') \<Longrightarrow> queue w' = queue w"
  by (auto simp: scan_node_def uv_mutex_lock_def uv_mutex_unlock_def emit_def Let_def
      split: if_splits option.splits sum.splits)

lemma scan_pending_queue:
  "scan_pending current previous returned head w = Some y
     \<Longrightarrow> (\<forall>w' head' returned'. y = Inr (w', head', returned') \<longrightarrow> queue w' = queue w)"
proof (induct rule: scan_pending_induct)
  case (step scan current previous returned head w y)
  then show ?case
    by (auto split: option.splits if_splits sum.splits prod.splits dest!: scan_node_queue)
qed

lemma free_remaining_queue:
  "free_remaining current w = Some y \<Longrightarrow> (\<forall>w'. y = Inr w' \<longrightarrow> queue w' = queue w)"
proof (induct rule: free_remaining_induct)
  case (step free_rem current w y)
  then show ?case
    by (auto simp: free_def split: option.splits)
qed

lemma settle_queue:
  "settle returned l w = Some (Inr r) \<Longrightarrow> queue (world_of r) = queue w"
  by (auto simp: settle_def next_pass_def leave_def free_def
      split: option.splits sum.splits if_splits dest!: free_remaining_queue)

lemma check_pending_queue:
  assumes "check_pending l w = Some (Inr r)"
  shows "queue (world_of r) = queue w"
proof -
  from assms obtain w' head' returned where
    scan: "scan_pending (first l) None None (first l) w = Some (Inr (w', head', returned))"
    and st: "settle returned (l\<lparr>first := head'\<rparr>) w' = Some (Inr r)"
    by (auto simp: check_pending_def split: option.splits sum.splits prod.splits)
  from scan_pending_queue[OF scan] have "queue w' = queue w" by simp
  with settle_queue[OF st] show ?thesis by simp
qed

lemma new_item_queue:
  "new_item status l w = Inr (l1, w1) \<Longrightarrow> queue w1 = queue w @ [brk w]"
  by (auto simp: new_item_def Let_def split: if_splits)

lemma pass_queue:
  assumes "PrimeThread_pass status l w = Some (Inr r)"
  shows "queue (world_of r) = (if snd (report_test l) then queue w @ [brk w] else queue w)"
proof (cases "snd (report_test l)")
  case True
  with assms obtain l1 w1 where
    ni: "new_item status (l\<lparr>prime_count := fst (report_test l)\<rparr>) w = Inr (l1, w1)"
    and cp: "check_pending l1 w1 = Some (Inr r)"
    by (auto simp: PrimeThread_pass_def pass_rest_def split: prod.splits sum.splits)
  from new_item_queue[OF ni] check_pending_queue[OF cp] True show ?thesis by simp
next
  case False
  with assms have "check_pending (l\<lparr>prime_count := fst (report_test l)\<rparr>) w = Some (Inr r)"
    by (auto simp: PrimeThread_pass_def pass_rest_def split: prod.splits)
  from check_pending_queue[OF this] False show ?thesis by simp
qed

lemma trial_division_2: "trial_division 2 2 = 2"
  by (subst trial_division.simps) simp

lemma start_pass:
  "PrimeThread_pass napi_ok PrimeThread_start empty_world
     = Some (Inr (Running \<lparr>idx_outer = 3, prime_count = 1, first = None\<rparr> empty_world))"
  by (simp add: PrimeThread_pass_def report_test_def PrimeThread_start_def pass_rest_def
        trial_division_2 check_pending_def scan_empty settle_def next_pass_def INT_MAX_def
        REPORT_EVERY_def)


subsection \<open>What can change \<open>js_accepts\<close> and what can call into JavaScript\<close>

lemma js_calls_emit [simp]: "js_calls (emit as w) = js_calls w @ filter js_call as"
  by (simp add: js_calls_def)

lemma scan_node_js:
  "scan_node c previous head w = Inr (w', head', returned')
     \<Longrightarrow> js_accepts w' = js_accepts w \<and> js_calls w' = js_calls w"
  by (auto simp: scan_node_def uv_mutex_lock_def uv_mutex_unlock_def emit_def js_calls_def Let_def
      split: if_splits option.splits sum.splits)

lemma scan_pending_js:
  "scan_pending current previous returned head w = Some y
     \<Longrightarrow> (\<forall>w' head' returned'. y = Inr (w', head', returned')
            \<longrightarrow> js_accepts w' = js_accepts w \<and> js_calls w' = js_calls w)"
proof (induct rule: scan_pending_induct)
  case (step scan current previous returned head w y)
  then show ?case
    by (auto split: option.splits if_splits sum.splits prod.splits dest!: scan_node_js)
qed

lemma free_js: "js_accepts (free a w) = js_accepts w \<and> js_calls (free a w) = js_calls w"
  by (simp add: free_def js_calls_def emit_def)

lemma free_remaining_js:
  "free_remaining current w = Some y
     \<Longrightarrow> (\<forall>w'. y = Inr w' \<longrightarrow> js_accepts w' = js_accepts w \<and> js_calls w' = js_calls w)"
proof (induct rule: free_remaining_induct)
  case (step free_rem current w y)
  then show ?case
    by (auto simp: free_js split: option.splits)
qed

lemma settle_js:
  "settle returned l w = Some (Inr r)
     \<Longrightarrow> js_accepts (world_of r) = js_accepts w \<and> js_calls (world_of r) = js_calls w"
  by (auto simp: settle_def next_pass_def leave_def free_js
      split: option.splits sum.splits if_splits dest!: free_remaining_js)

lemma check_pending_js:
  assumes "check_pending l w = Some (Inr r)"
  shows "js_accepts (world_of r) = js_accepts w \<and> js_calls (world_of r) = js_calls w"
proof -
  from assms obtain w' head' returned where
    scan: "scan_pending (first l) None None (first l) w = Some (Inr (w', head', returned))"
    and st: "settle returned (l\<lparr>first := head'\<rparr>) w' = Some (Inr r)"
    by (auto simp: check_pending_def split: option.splits sum.splits prod.splits)
  from scan_pending_js[OF scan] settle_js[OF st] show ?thesis by simp
qed

lemma new_item_js:
  "new_item status l w = Inr (l1, w1) \<Longrightarrow> js_accepts w1 = js_accepts w \<and> js_calls w1 = js_calls w"
  by (auto simp: new_item_def Let_def js_calls_def emit_def split: if_splits)

lemma pass_rest_js:
  assumes "pass_rest report status l w = Some (Inr r)"
  shows "js_accepts (world_of r) = js_accepts w \<and> js_calls (world_of r) = js_calls w"
proof (cases report)
  case True
  with assms obtain l1 w1 where ni: "new_item status l w = Inr (l1, w1)"
    and cp: "check_pending l1 w1 = Some (Inr r)"
    by (auto simp: pass_rest_def split: prod.splits sum.splits)
  from new_item_js[OF ni] check_pending_js[OF cp] show ?thesis by simp
next
  case False
  with assms have "check_pending l w = Some (Inr r)" by (simp add: pass_rest_def)
  from check_pending_js[OF this] show ?thesis .
qed

lemma CallJs_refused: "\<not> js_accepts w \<Longrightarrow> CallJs env js_cb data w = Inr w"
  by (simp add: CallJs_def)

lemma Register_js:
  "RegisterReturnValue item v w = Inr w'
     \<Longrightarrow> js_accepts w' = (js_accepts w \<and> v) \<and> js_calls w' = js_calls w"
  by (auto simp: RegisterReturnValue_def uv_mutex_lock_def uv_mutex_unlock_def emit_def
        js_calls_def Let_def split: if_splits option.splits sum.splits)

lemma step_refused:
  assumes "\<not> js_accepts (shared s)" and "step e s = Some (Inr s')"
  shows "\<not> js_accepts (shared s') \<and> js_calls (shared s') = js_calls (shared s)"
proof (cases e)
  case (Pass report status)
  show ?thesis
  proof (cases "producer s")
    case None
    with Pass assms show ?thesis by (simp add: step_def)
  next
    case (Some l)
    with Pass assms(2) obtain r where r: "pass_rest report status l (shared s) = Some (Inr r)"
      and s': "shared s' = world_of r"
      by (auto simp: step_def split: option.splits sum.splits pass.splits)
    from pass_rest_js[OF r] s' assms(1) show ?thesis by simp
  qed
next
  case (Deliver env js_cb)
  with assms show ?thesis
    by (auto simp: step_def CallJs_def js_calls_def split: list.splits)
next
  case (Register item v)
  with assms(2) obtain w' where "RegisterReturnValue item v (shared s) = Inr w'" "shared s' = w'"
    by (auto simp: step_def split: if_splits sum.splits)
  with Register_js[OF this(1)] assms(1) show ?thesis by simp
qed

lemma run_refused:
  "\<not> js_accepts (shared s) \<Longrightarrow> run es s = Some (Inr s')
     \<Longrightarrow> \<not> js_accepts (shared s') \<and> js_calls (shared s') = js_calls (shared s)"
proof (induction es arbitrary: s)
  case Nil
  then show ?case by simp
next
  case (Cons e es)
  from Cons.prems(2) obtain s1 where s1: "step e s = Some (Inr s1)" and rest: "run es s1 = Some (Inr s')"
    by (auto split: option.splits sum.splits)
  from step_refused[OF Cons.prems(1) s1] Cons.IH[OF _ rest] show ?case by simp
qed

lemma register_false:
  assumes "step (Register item False) s = Some (Inr s1)"
  shows "\<not> js_accepts (shared s1)"
proof -
  from assms obtain w' where "RegisterReturnValue item False (shared s) = Inr w'" "shared s1 = w'"
    by (auto simp: step_def split: if_splits sum.splits)
  with Register_js[OF this(1)] show ?thesis by simp
qed

subsection \<open>Evaluating concrete runs\<close>

lemmas exec =
  step_def pass_rest_def new_item_def check_pending_def scan_pending.simps scan_node_def
  uv_mutex_lock_def uv_mutex_unlock_def emit_def settle_def next_pass_def INT_MAX_def
  leave_def free_remaining.simps free_def CallJs_def RegisterReturnValue_def Let_def
  initial_def empty_world_def PrimeThread_start_def


subsection \<open>The scanning loop on a well-formed pending list\<close>

lemma emit_heap_update: "(emit as w)\<lparr>heap := h\<rparr> = emit as (w\<lparr>heap := h\<rparr>)"
  by (simp add: emit_def)

lemma scan_node_unresolved:
  assumes "heap w c = Some item" and "\<not> call_has_returned item" and "\<not> check_status_mutex w"
  shows "scan_node c previous head w = Inr (emit (visit c) w, head, None)"
  using assms
  by (simp add: scan_node_def uv_mutex_lock_def Let_def unlock_emit mutex_reset visit_def)

lemma scan_node_resolved:
  assumes "heap w c = Some item" and "call_has_returned item" and "\<not> check_status_mutex w"
    and "\<forall>p. previous = Some p \<longrightarrow> heap w p \<noteq> None"
  shows "scan_node c previous head w =
           Inr (emit (visit c) (w\<lparr>heap := unhook previous c (heap w)\<rparr>),
                (case previous of None \<Rightarrow> next_item item | Some p \<Rightarrow> head), Some c)"
proof (cases previous)
  case None
  have "w\<lparr>heap := heap w\<rparr> = w" by simp
  with None assms show ?thesis
    by (simp add: scan_node_def uv_mutex_lock_def Let_def unlock_emit mutex_reset visit_def
          unhook_def)
next
  case (Some p)
  with assms(4) obtain pitem where p: "heap w p = Some pitem" by auto
  have "(w\<lparr>check_status_mutex := True, heap := H\<rparr>)\<lparr>check_status_mutex := False\<rparr> = w\<lparr>heap := H\<rparr>" for H
    using assms(3) by (cases w) simp
  with Some p assms(1-3) show ?thesis
    by (simp add: scan_node_def uv_mutex_lock_def Let_def uv_mutex_unlock_def emit_def visit_def
          unhook_def)
qed

lemma scan_returned:
  "scan_pending current previous (Some r) head w = Some (Inr (w, head, Some r))"
  by (subst scan_pending.simps) (simp split: option.splits)

lemma unhook_allocated: "h c = Some item \<Longrightarrow> \<exists>item'. unhook pred c h c = Some item'"
  by (auto simp: unhook_def split: option.splits)

lemma scan_unresolved:
  "pending (heap w) current cs \<Longrightarrow> \<forall>a\<in>set cs. \<not> resolved (heap w) a
     \<Longrightarrow> \<not> check_status_mutex w
     \<Longrightarrow> scan_pending current previous None head w
           = Some (Inr (emit (concat (map visit cs)) w, head, None))"
proof (induction cs arbitrary: current previous w)
  case Nil
  then show ?case by (simp add: scan_empty)
next
  case (Cons c cs)
  from Cons.prems(1) obtain item where cur: "current = Some c" and item: "heap w c = Some item"
    and rest: "pending (heap w) (next_item item) cs"
    by (auto split: option.splits)
  from Cons.prems(2) item have unres: "\<not> call_has_returned item"
    by (simp add: resolved_def)
  let ?w1 = "emit (visit c) w"
  have node: "scan_node c previous head w = Inr (?w1, head, None)"
    using item unres Cons.prems(3) by (rule scan_node_unresolved)
  have "scan_pending (next_item item) (Some c) None head ?w1
          = Some (Inr (emit (concat (map visit cs)) ?w1, head, None))"
    using rest Cons.prems by (intro Cons.IH) simp_all
  then show ?case
    using cur node item by (subst scan_pending.simps) simp
qed

lemma scan_resolved:
  "pending (heap w) current (ys @ a # zs) \<Longrightarrow> \<forall>y\<in>set ys. \<not> resolved (heap w) y
     \<Longrightarrow> resolved (heap w) a \<Longrightarrow> \<not> check_status_mutex w
     \<Longrightarrow> \<forall>p. previous = Some p \<longrightarrow> heap w p \<noteq> None
     \<Longrightarrow> scan_pending current previous None head w
           = Some (Inr (emit (concat (map visit (ys @ [a])))
                          (w\<lparr>heap := unhook (if ys = [] then previous else Some (last ys)) a (heap w)\<rparr>),
                        (case (if ys = [] then previous else Some (last ys)) of
                           None \<Rightarrow> next_of (heap w) a | Some p \<Rightarrow> head),
                        Some a))"
proof (induction ys arbitrary: current previous w)
  case Nil
  from Nil.prems(1) obtain item where cur: "current = Some a" and item: "heap w a = Some item"
    by (auto split: option.splits)
  from Nil.prems(3) item have res: "call_has_returned item" by (simp add: resolved_def)
  note node = scan_node_resolved[OF item res Nil.prems(4) Nil.prems(5), of head]
  from unhook_allocated[of "heap w" a item previous, OF item] obtain item' where
    item': "unhook previous a (heap w) a = Some item'" by blast
  show ?case
    using cur node item item'
    by (subst scan_pending.simps) (simp add: scan_returned next_of_def split: option.splits)
next
  case (Cons y ys)
  from Cons.prems(1) obtain item where cur: "current = Some y" and item: "heap w y = Some item"
    and rest: "pending (heap w) (next_item item) (ys @ a # zs)"
    by (auto split: option.splits)
  from Cons.prems(2) item have unres: "\<not> call_has_returned item"
    by (simp add: resolved_def)
  let ?w1 = "emit (visit y) w"
  have node: "scan_node y previous head w = Inr (?w1, head, None)"
    using item unres Cons.prems(4) by (rule scan_node_unresolved)
  have ih: "scan_pending (next_item item) (Some y) None head ?w1
          = Some (Inr (emit (concat (map visit (ys @ [a])))
                          (?w1\<lparr>heap := unhook (if ys = [] then Some y else Some (last ys)) a (heap ?w1)\<rparr>),
                        (case (if ys = [] then Some y else Some (last ys)) of
                           None \<Rightarrow> next_of (heap ?w1) a | Some p \<Rightarrow> head),
                        Some a))"
    using rest Cons.prems item by (intro Cons.IH) simp_all
  have pred: "(if ys = [] then Some y else Some (last ys)) = Some (last (y # ys))" by simp
  show ?case
    using cur node item ih
    by (subst scan_pending.simps) (simp add: emit_heap_update)
qed


subsection \<open>Unhooking and freeing in a well-formed pending list\<close>

lemma pending_cong:
  "\<forall>x\<in>set xs. h' x = h x \<Longrightarrow> pending h' p xs = pending h p xs"
  by (induction xs arbitrary: p) (auto split: option.splits)

lemma pending_allocated: "pending h p xs \<Longrightarrow> x \<in> set xs \<Longrightarrow> h x \<noteq> None"
  by (induction xs arbitrary: p) (auto split: option.splits)

lemma pending_head: "pending h p (ys @ a # zs) \<Longrightarrow> ys \<noteq> [] \<Longrightarrow> p = Some (hd ys)"
  by (cases ys) auto

lemma pending_unhook:
  "pending h p (ys @ a # zs) \<Longrightarrow> distinct (ys @ a # zs) \<Longrightarrow> ys \<noteq> []
     \<Longrightarrow> pending (unhook (Some (last ys)) a h) p (ys @ zs)"
proof (induction ys arbitrary: p)
  case Nil
  then show ?case by simp
next
  case (Cons y ys)
  from Cons.prems(1) obtain yi where p: "p = Some y" and yi: "h y = Some yi"
    and rest: "pending h (next_item yi) (ys @ a # zs)"
    by (auto split: option.splits)
  show ?case
  proof (cases "ys = []")
    case True
    with rest obtain ai where nxt: "next_item yi = Some a" and ai: "h a = Some ai"
      and tl: "pending h (next_item ai) zs"
      by (auto split: option.splits)
    let ?h' = "h(y \<mapsto> yi\<lparr>next_item := next_item ai\<rparr>)"
    have "pending ?h' (next_item ai) zs = pending h (next_item ai) zs"
      using Cons.prems(2) by (intro pending_cong) auto
    moreover have "unhook (Some y) a h = ?h'" using yi ai by (simp add: unhook_def)
    ultimately show ?thesis using tl True p yi ai by (simp add: fun_upd_def)
  next
    case False
    let ?h' = "unhook (Some (last ys)) a h"
    from Cons.prems(2) have "distinct (ys @ a # zs)" by simp
    from Cons.IH[OF rest this False] have ih: "pending ?h' (next_item yi) (ys @ zs)" .
    have "y \<noteq> last ys" using Cons.prems(2) False by auto
    then have "?h' y = h y" by (auto simp: unhook_def split: option.splits)
    with ih p yi False show ?thesis by simp
  qed
qed

lemma pending_first_unhooked:
  "pending h p (a # zs) \<Longrightarrow> pending h (next_of h a) zs"
  by (auto simp: next_of_def split: option.splits)

lemma restrict_step: "(h(c := None)) |` (- set cs) = h |` (- set (c # cs))"
  by (rule ext) (simp add: restrict_map_def)

lemma free_all:
  "pending (heap w) p xs \<Longrightarrow> distinct xs
     \<Longrightarrow> free_remaining p w
           = Some (Inr (emit (map Free xs) (w\<lparr>heap := heap w |` (- set xs)\<rparr>)))"
proof (induction xs arbitrary: p w)
  case Nil
  have "w\<lparr>heap := heap w |` UNIV\<rparr> = w" by (simp add: restrict_map_def)
  with Nil show ?case by (subst free_remaining.simps) simp
next
  case (Cons c cs)
  from Cons.prems(1) obtain item where p: "p = Some c" and item: "heap w c = Some item"
    and rest: "pending (heap w) (next_item item) cs"
    by (auto split: option.splits)
  have "pending (heap (free c w)) (next_item item) cs = pending (heap w) (next_item item) cs"
    using Cons.prems(2) by (intro pending_cong) (auto simp: free_def)
  with rest have rest': "pending (heap (free c w)) (next_item item) cs" by simp
  from Cons.prems(2) have "distinct cs" by simp
  from Cons.IH[OF rest' this]
  have "free_remaining (next_item item) (free c w)
          = Some (Inr (emit (map Free cs) ((free c w)\<lparr>heap := heap (free c w) |` (- set cs)\<rparr>)))" .
  moreover have "emit (map Free cs) ((free c w)\<lparr>heap := heap (free c w) |` (- set cs)\<rparr>)
      = emit (map Free (c # cs)) (w\<lparr>heap := heap w |` (- set (c # cs))\<rparr>)"
  proof -
    have "- set cs - {c} = - insert c (set cs)" by auto
    then show ?thesis by (simp add: free_def emit_def insert_absorb)
  qed
  ultimately show ?case using p item by (subst free_remaining.simps) simp
qed

lemma pending_functional: "pending h p xs \<Longrightarrow> pending h p ys \<Longrightarrow> xs = ys"
proof (induction xs arbitrary: p ys)
  case Nil
  then show ?case by (cases ys) auto
next
  case (Cons a as)
  then show ?case by (cases ys) (auto split: option.splits)
qed

lemma pending_suffix: "pending h p (xs @ ys) \<Longrightarrow> \<exists>q. pending h q ys"
  by (induction xs arbitrary: p) (auto split: option.splits)

lemma pending_distinct: "pending h p xs \<Longrightarrow> distinct xs"
proof (induction xs arbitrary: p)
  case Nil
  then show ?case by simp
next
  case (Cons a as)
  from Cons.prems obtain item where item: "h a = Some item"
    and rest: "pending h (next_item item) as"
    by (auto split: option.splits)
  have "a \<notin> set as"
  proof
    assume "a \<in> set as"
    then obtain us vs where as: "as = us @ a # vs" by (auto simp: in_set_conv_decomp)
    from rest have "pending h (next_item item) (us @ a # vs)" unfolding as .
    from pending_suffix[OF this] obtain q where "pending h q (a # vs)" by blast
    with item have "pending h (next_item item) vs" by simp
    from pending_functional[OF rest this] as show False by simp
  qed
  with Cons.IH[OF rest] show ?case by simp
qed


subsection \<open>What the scan finds\<close>

lemma unhook_other:
  "distinct (ys @ a # zs) \<Longrightarrow> unhook (if ys = [] then None else Some (last ys)) a h a = h a"
  by (auto simp: unhook_def split: option.splits)

lemma scan_finds:
  assumes pend: "pending (heap w) p (ys @ a # zs)" and dist: "distinct (ys @ a # zs)"
    and unres: "\<forall>y\<in>set ys. \<not> resolved (heap w) y" and res: "resolved (heap w) a"
    and free: "\<not> check_status_mutex w"
  shows "\<exists>w1 head1. scan_pending p None None p w = Some (Inr (w1, head1, Some a))
           \<and> pending (heap w1) head1 (ys @ zs)
           \<and> heap w1 a = heap w a
           \<and> w1 = emit (concat (map visit (ys @ [a])))
                     (w\<lparr>heap := unhook (if ys = [] then None else Some (last ys)) a (heap w)\<rparr>)"
proof -
  let ?pred = "if ys = [] then None else Some (last ys)"
  let ?H = "unhook ?pred a (heap w)"
  let ?w1 = "emit (concat (map visit (ys @ [a]))) (w\<lparr>heap := ?H\<rparr>)"
  let ?head1 = "case ?pred of None \<Rightarrow> next_of (heap w) a | Some q \<Rightarrow> p"
  have scan: "scan_pending p None None p w = Some (Inr (?w1, ?head1, Some a))"
    using scan_resolved[OF pend unres res free, of None p] by simp
  have list: "pending ?H ?head1 (ys @ zs)"
  proof (cases "ys = []")
    case True
    with pend show ?thesis by (simp add: unhook_def pending_first_unhooked)
  next
    case False
    with pending_unhook[OF pend dist False] show ?thesis by simp
  qed
  have same: "?H a = heap w a" using dist by (rule unhook_other)
  show ?thesis using scan list same by simp
qed

lemma examinations_append: "examinations (as @ bs) = examinations as @ examinations bs"
  by (induction as rule: examinations.induct) simp_all

lemma examinations_visits: "examinations (concat (map visit xs)) = xs"
  by (induction xs) (simp_all add: visit_def)

subsection \<open>Every state the example reaches is well formed\<close>

lemma check_pending_none:
  assumes "pending (heap w) (first l) xs" and "\<not> check_status_mutex w"
    and "\<forall>a\<in>set xs. \<not> resolved (heap w) a"
  shows "check_pending l w = Some (next_pass l (emit (concat (map visit xs)) w))"
  using scan_unresolved[OF assms(1) assms(3) assms(2), of None "first l"]
  by (simp add: check_pending_def settle_def)

lemma check_pending_found:
  assumes pend: "pending (heap w) (first l) (ys @ a # zs)" and dist: "distinct (ys @ a # zs)"
    and free: "\<not> check_status_mutex w"
    and unres: "\<forall>y\<in>set ys. \<not> resolved (heap w) y" and res: "resolved (heap w) a"
  shows "\<exists>w1 head1.
           w1 = emit (concat (map visit (ys @ [a])))
                  (w\<lparr>heap := unhook (if ys = [] then None else Some (last ys)) a (heap w)\<rparr>)
         \<and> pending (heap w1) head1 (ys @ zs)
         \<and> heap w1 a = heap w a
         \<and> check_pending l w =
             (if result_of (heap w) a
              then Some (next_pass (l\<lparr>first := head1\<rparr>) (free a w1))
              else Some (Inr (Stopped (emit [ThreadsafeRelease napi_tsfn_release]
                     (emit (map Free (ys @ zs)) (w1\<lparr>heap := heap w1 |` (- set (ys @ zs))\<rparr>))))))"
proof -
  from scan_finds[OF pend dist unres res free] obtain w1 head1 where
    scan: "scan_pending (first l) None None (first l) w = Some (Inr (w1, head1, Some a))"
    and list: "pending (heap w1) head1 (ys @ zs)" and same: "heap w1 a = heap w a"
    and w1: "w1 = emit (concat (map visit (ys @ [a])))
                     (w\<lparr>heap := unhook (if ys = [] then None else Some (last ys)) a (heap w)\<rparr>)"
    by blast
  from res obtain item where item: "heap w a = Some item"
    by (auto simp: resolved_def split: option.splits)
  from dist have d': "distinct (ys @ zs)" by auto
  have "check_pending l w =
             (if result_of (heap w) a
              then Some (next_pass (l\<lparr>first := head1\<rparr>) (free a w1))
              else Some (Inr (Stopped (emit [ThreadsafeRelease napi_tsfn_release]
                     (emit (map Free (ys @ zs)) (w1\<lparr>heap := heap w1 |` (- set (ys @ zs))\<rparr>))))))"
    using scan same item free_all[OF list d']
    by (simp add: check_pending_def settle_def leave_def result_of_def)
  with w1 list same show ?thesis by blast
qed

lemma new_item_wf:
  assumes "pending (heap w) (first l) xs" and "distinct xs" and "\<forall>x\<in>set xs. x < brk w"
    and "new_item status l w = Inr (l1, w1)"
  shows "pending (heap w1) (first l1) (brk w # xs) \<and> distinct (brk w # xs)
         \<and> (\<forall>x\<in>set (brk w # xs). x < brk w1)
         \<and> check_status_mutex w1 = check_status_mutex w"
proof -
  let ?item = "\<lparr>the_prime = idx_outer l, next_item = first l,
                 call_has_returned = False, return_value = False\<rparr>"
  from assms(4) have l1: "first l1 = Some (brk w)" and h1: "heap w1 = (heap w)(brk w \<mapsto> ?item)"
    and b1: "brk w1 = brk w + 1" and m1: "check_status_mutex w1 = check_status_mutex w"
    by (auto simp: new_item_def Let_def split: if_splits)
  from assms(3) have fresh: "brk w \<notin> set xs" by auto
  have "pending (heap w1) (first l) xs = pending (heap w) (first l) xs"
    using fresh h1 by (intro pending_cong) auto
  with assms(1) have "pending (heap w1) (first l) xs" by simp
  then have "pending (heap w1) (first l1) (brk w # xs)" using l1 h1 by simp
  moreover have "\<forall>x\<in>set (brk w # xs). x < brk w1" using assms(3) b1 by auto
  ultimately show ?thesis using fresh assms(2) m1 by simp
qed

lemma next_pass_world: "next_pass l w = Inr r \<Longrightarrow> \<exists>l'. r = Running l' w \<and> first l' = first l"
  by (auto simp: next_pass_def split: if_splits)

lemma check_pending_wf:
  assumes pend: "pending (heap w) (first l) xs" and dist: "distinct xs"
    and bound: "\<forall>x\<in>set xs. x < brk w" and free: "\<not> check_status_mutex w"
    and res: "check_pending l w = Some (Inr r)"
  shows "\<not> check_status_mutex (world_of r)
         \<and> (\<forall>l' w'. r = Running l' w' \<longrightarrow>
               (\<exists>xs'. pending (heap w') (first l') xs' \<and> distinct xs'
                      \<and> (\<forall>x\<in>set xs'. x < brk w')))"
proof (cases "\<forall>a\<in>set xs. \<not> resolved (heap w) a")
  case True
  from check_pending_none[OF pend free True] res
  have "next_pass l (emit (concat (map visit xs)) w) = Inr r" by simp
  from next_pass_world[OF this] obtain l' where
    r: "r = Running l' (emit (concat (map visit xs)) w)" and f: "first l' = first l" by blast
  show ?thesis using r f pend dist bound free by auto
next
  case False
  then have "\<exists>a\<in>set xs. resolved (heap w) a" by blast
  from split_list_first_prop[OF this] obtain ys a zs where
    xs: "xs = ys @ a # zs" and ra: "resolved (heap w) a" and un: "\<forall>y\<in>set ys. \<not> resolved (heap w) y"
    by blast
  from pend dist xs have p: "pending (heap w) (first l) (ys @ a # zs)"
    and d: "distinct (ys @ a # zs)" by simp_all
  from check_pending_found[OF p d free un ra] obtain w1 head1 where
    w1: "w1 = emit (concat (map visit (ys @ [a])))
                  (w\<lparr>heap := unhook (if ys = [] then None else Some (last ys)) a (heap w)\<rparr>)"
    and list: "pending (heap w1) head1 (ys @ zs)"
    and cp: "check_pending l w =
             (if result_of (heap w) a
              then Some (next_pass (l\<lparr>first := head1\<rparr>) (free a w1))
              else Some (Inr (Stopped (emit [ThreadsafeRelease napi_tsfn_release]
                     (emit (map Free (ys @ zs)) (w1\<lparr>heap := heap w1 |` (- set (ys @ zs))\<rparr>))))))"
    by blast
  have m1: "\<not> check_status_mutex w1" and b1: "brk w1 = brk w" using w1 free by simp_all
  show ?thesis
  proof (cases "result_of (heap w) a")
    case True
    with cp res have "next_pass (l\<lparr>first := head1\<rparr>) (free a w1) = Inr r" by simp
    from next_pass_world[OF this] obtain l' where
      r: "r = Running l' (free a w1)" and f: "first l' = head1" by auto
    have "pending (heap (free a w1)) head1 (ys @ zs) = pending (heap w1) head1 (ys @ zs)"
      using d by (intro pending_cong) (auto simp: free_def)
    with list have "pending (heap (free a w1)) (first l') (ys @ zs)" using f by simp
    moreover have "distinct (ys @ zs)" using d by auto
    moreover have "\<forall>x\<in>set (ys @ zs). x < brk (free a w1)"
      using bound xs b1 by (auto simp: free_def)
    moreover have "\<not> check_status_mutex (free a w1)" using m1 by (simp add: free_def)
    ultimately show ?thesis using r by auto
  next
    case False
    with cp res have "r = Stopped (emit [ThreadsafeRelease napi_tsfn_release]
                     (emit (map Free (ys @ zs)) (w1\<lparr>heap := heap w1 |` (- set (ys @ zs))\<rparr>)))"
      by simp
    then show ?thesis using m1 by simp
  qed
qed

lemma pending_flags:
  assumes "h item = Some it"
  shows "pending (h(item \<mapsto> it\<lparr>call_has_returned := c, return_value := v\<rparr>)) p xs = pending h p xs"
  using assms
  by (induction xs arbitrary: p) (auto split: option.splits)

lemma step_wf:
  assumes wf: "well_formed s" and st: "step e s = Some (Inr s')"
  shows "well_formed s'"
proof (cases e)
  case (Pass report status)
  show ?thesis
  proof (cases "producer s")
    case None
    with Pass st wf show ?thesis by (simp add: step_def)
  next
    case (Some l)
    with wf obtain xs where free: "\<not> check_status_mutex (shared s)"
      and pend: "pending (heap (shared s)) (first l) xs" and dist: "distinct xs"
      and bound: "\<forall>x\<in>set xs. x < brk (shared s)"
      by (auto simp: well_formed_def)
    from Pass Some st obtain r where r: "pass_rest report status l (shared s) = Some (Inr r)"
      and s': "s' = (case r of Running l' w' \<Rightarrow> \<lparr>producer = Some l', shared = w'\<rparr>
                            | Stopped w' \<Rightarrow> \<lparr>producer = None, shared = w'\<rparr>)"
      by (auto simp: step_def split: option.splits sum.splits pass.splits)
    have good: "\<not> check_status_mutex (world_of r)
         \<and> (\<forall>l' w'. r = Running l' w' \<longrightarrow>
               (\<exists>xs'. pending (heap w') (first l') xs' \<and> distinct xs'
                      \<and> (\<forall>x\<in>set xs'. x < brk w')))"
    proof (cases report)
      case True
      with r obtain l1 w1 where ni: "new_item status l (shared s) = Inr (l1, w1)"
        and cp: "check_pending l1 w1 = Some (Inr r)"
        by (auto simp: pass_rest_def split: sum.splits prod.splits)
      from new_item_wf[OF pend dist bound ni] free
      have "pending (heap w1) (first l1) (brk (shared s) # xs)" "distinct (brk (shared s) # xs)"
        "\<forall>x\<in>set (brk (shared s) # xs). x < brk w1" "\<not> check_status_mutex w1"
        by simp_all
      from check_pending_wf[OF this cp] show ?thesis .
    next
      case False
      with r have cp: "check_pending l (shared s) = Some (Inr r)" by (simp add: pass_rest_def)
      from check_pending_wf[OF pend dist bound free cp] show ?thesis .
    qed
    then show ?thesis using s' by (cases r) (auto simp: well_formed_def)
  qed
next
  case (Deliver env js_cb)
  show ?thesis
  proof (cases "queue (shared s)")
    case Nil
    with Deliver st wf show ?thesis by (simp add: step_def)
  next
    case (Cons data rest)
    with Deliver st obtain w' where c: "CallJs env js_cb data ((shared s)\<lparr>queue := rest\<rparr>) = Inr w'"
      and s': "s' = s\<lparr>shared := w'\<rparr>"
      by (auto simp: step_def split: sum.splits)
    from c have "heap w' = heap (shared s)" "brk w' = brk (shared s)"
      "check_status_mutex w' = check_status_mutex (shared s)"
      by (auto simp: CallJs_def Let_def split: if_splits option.splits)
    with wf s' show ?thesis by (auto simp: well_formed_def split: option.splits)
  qed
next
  case (Register item v)
  from wf have free: "\<not> check_status_mutex (shared s)" by (simp add: well_formed_def)
  from Register st obtain w' where reg: "RegisterReturnValue item v (shared s) = Inr w'"
    and s': "s' = s\<lparr>shared := w'\<rparr>"
    by (auto simp: step_def split: if_splits sum.splits)
  from reg obtain it where it: "heap (shared s) item = Some it"
    by (auto simp: RegisterReturnValue_def uv_mutex_lock_def Let_def emit_def
        split: if_splits option.splits)
  from reg it free
  have h': "heap w' = (heap (shared s))(item \<mapsto> it\<lparr>call_has_returned := True, return_value := v\<rparr>)"
    and b': "brk w' = brk (shared s)" and m': "\<not> check_status_mutex w'"
    by (auto simp: RegisterReturnValue_def uv_mutex_lock_def uv_mutex_unlock_def Let_def emit_def
        split: if_splits)
  have "pending (heap w') p xs = pending (heap (shared s)) p xs" for p xs
    unfolding h' using it by (rule pending_flags)
  then show ?thesis using wf s' b' m'
    by (auto simp: well_formed_def split: option.splits)
qed

lemma run_wf: "well_formed s \<Longrightarrow> run es s = Some (Inr s') \<Longrightarrow> well_formed s'"
proof (induction es arbitrary: s)
  case Nil
  then show ?case by simp
next
  case (Cons e es)
  from Cons.prems(2) obtain s1 where s1: "step e s = Some (Inr s1)" and rest: "run es s1 = Some (Inr s')"
    by (auto split: option.splits sum.splits)
  from Cons.IH[OF step_wf[OF Cons.prems(1) s1] rest] show ?case .
qed

lemma initial_wf: "well_formed initial"
  by (simp add: well_formed_def initial_def empty_world_def PrimeThread_start_def)

subsection \<open>The outcomes of the scan and of what follows it\<close>

lemma check_pending_cases:
  assumes pend: "pending (heap w) (first l) xs"
    and free: "\<not> check_status_mutex w" and small: "idx_outer l \<noteq> INT_MAX"
  shows
    "((\<forall>a\<in>set xs. \<not> resolved (heap w) a) \<longrightarrow>
        check_pending l w
          = Some (Inr (Running (l\<lparr>idx_outer := idx_outer l + 1\<rparr>)
                               (emit (concat (map visit xs)) w))))
     \<and> (\<forall>ys a zs. xs = ys @ a # zs \<and> (\<forall>y\<in>set ys. \<not> resolved (heap w) y)
           \<and> resolved (heap w) a \<longrightarrow>
          (result_of (heap w) a \<longrightarrow>
             (\<exists>l' w'. check_pending l w = Some (Inr (Running l' w'))
                \<and> idx_outer l' = idx_outer l + 1
                \<and> pending (heap w') (first l') (ys @ zs)
                \<and> heap w' a = None
                \<and> trace w' = trace w @ concat (map visit (ys @ [a])) @ [Free a]))
          \<and> (\<not> result_of (heap w) a \<longrightarrow>
             (\<exists>w'. check_pending l w = Some (Inr (Stopped w'))
                \<and> (\<forall>b\<in>set (ys @ zs). heap w' b = None)
                \<and> heap w' a = heap w a
                \<and> trace w' = trace w @ concat (map visit (ys @ [a])) @ map Free (ys @ zs)
                               @ [ThreadsafeRelease napi_tsfn_release])))"
proof (intro conjI allI impI)
  assume "\<forall>a\<in>set xs. \<not> resolved (heap w) a"
  from scan_unresolved[OF pend this free, of None "first l"] small
  show "check_pending l w
          = Some (Inr (Running (l\<lparr>idx_outer := idx_outer l + 1\<rparr>)
                               (emit (concat (map visit xs)) w)))"
    by (simp add: check_pending_def settle_def next_pass_def)
next
  fix ys a zs
  assume dec: "xs = ys @ a # zs \<and> (\<forall>y\<in>set ys. \<not> resolved (heap w) y) \<and> resolved (heap w) a"
  assume val: "result_of (heap w) a"
  from pend have dist: "distinct xs" by (rule pending_distinct)
  from dec pend dist have p: "pending (heap w) (first l) (ys @ a # zs)"
    and d: "distinct (ys @ a # zs)" by simp_all
  from scan_finds[OF p d _ _ free] dec obtain w1 head1 where
    scan: "scan_pending (first l) None None (first l) w = Some (Inr (w1, head1, Some a))"
    and list: "pending (heap w1) head1 (ys @ zs)" and same: "heap w1 a = heap w a"
    and w1: "w1 = emit (concat (map visit (ys @ [a])))
                     (w\<lparr>heap := unhook (if ys = [] then None else Some (last ys)) a (heap w)\<rparr>)"
    by blast
  from dec obtain item where item: "heap w a = Some item"
    by (auto simp: resolved_def split: option.splits)
  with val have rv: "return_value item" by (simp add: result_of_def)
  let ?l' = "l\<lparr>first := head1, idx_outer := idx_outer l + 1\<rparr>"
  have cp: "check_pending l w = Some (Inr (Running ?l' (free a w1)))"
    using scan same item rv small by (simp add: check_pending_def settle_def next_pass_def)
  have "pending (heap (free a w1)) head1 (ys @ zs) = pending (heap w1) head1 (ys @ zs)"
    using d by (intro pending_cong) (auto simp: free_def)
  with list have list': "pending (heap (free a w1)) (first ?l') (ys @ zs)" by simp
  have gone: "heap (free a w1) a = None" by (simp add: free_def)
  have tr: "trace (free a w1) = trace w @ concat (map visit (ys @ [a])) @ [Free a]"
    using w1 by (simp add: free_def)
  show "\<exists>l' w'. check_pending l w = Some (Inr (Running l' w'))
                \<and> idx_outer l' = idx_outer l + 1
                \<and> pending (heap w') (first l') (ys @ zs)
                \<and> heap w' a = None
                \<and> trace w' = trace w @ concat (map visit (ys @ [a])) @ [Free a]"
    using cp list' gone tr by (intro exI[of _ ?l'] exI[of _ "free a w1"]) simp
next
  fix ys a zs
  assume dec: "xs = ys @ a # zs \<and> (\<forall>y\<in>set ys. \<not> resolved (heap w) y) \<and> resolved (heap w) a"
  assume val: "\<not> result_of (heap w) a"
  from pend have dist: "distinct xs" by (rule pending_distinct)
  from dec pend dist have p: "pending (heap w) (first l) (ys @ a # zs)"
    and d: "distinct (ys @ a # zs)" by simp_all
  from scan_finds[OF p d _ _ free] dec obtain w1 head1 where
    scan: "scan_pending (first l) None None (first l) w = Some (Inr (w1, head1, Some a))"
    and list: "pending (heap w1) head1 (ys @ zs)" and same: "heap w1 a = heap w a"
    and w1: "w1 = emit (concat (map visit (ys @ [a])))
                     (w\<lparr>heap := unhook (if ys = [] then None else Some (last ys)) a (heap w)\<rparr>)"
    by blast
  from dec obtain item where item: "heap w a = Some item"
    by (auto simp: resolved_def split: option.splits)
  with val have rv: "\<not> return_value item" by (simp add: result_of_def)
  from d have d': "distinct (ys @ zs)" by auto
  let ?w2 = "emit (map Free (ys @ zs)) (w1\<lparr>heap := heap w1 |` (- set (ys @ zs))\<rparr>)"
  let ?w' = "emit [ThreadsafeRelease napi_tsfn_release] ?w2"
  have cp: "check_pending l w = Some (Inr (Stopped ?w'))"
    using scan same item rv free_all[OF list d']
    by (simp add: check_pending_def settle_def leave_def)
  have freed: "\<forall>b\<in>set (ys @ zs). heap ?w' b = None" by simp
  have kept: "heap ?w' a = heap w a" using same d by (simp add: restrict_map_def)
  have tr: "trace ?w' = trace w @ concat (map visit (ys @ [a])) @ map Free (ys @ zs)
                               @ [ThreadsafeRelease napi_tsfn_release]"
    using w1 by simp
  show "\<exists>w'. check_pending l w = Some (Inr (Stopped w'))
                \<and> (\<forall>b\<in>set (ys @ zs). heap w' b = None)
                \<and> heap w' a = heap w a
                \<and> trace w' = trace w @ concat (map visit (ys @ [a])) @ map Free (ys @ zs)
                               @ [ThreadsafeRelease napi_tsfn_release]"
    using cp freed kept tr by (intro exI[of _ ?w']) blast
qed



subsection \<open>The enqueue and the pass as a whole\<close>

lemma new_item_ok:
  "new_item napi_ok l w = Inr (l\<lparr>first := Some (brk w)\<rparr>, with_item l w)"
  by (simp add: new_item_def with_item_def emit_def Let_def)

lemma new_item_refused: "status \<noteq> napi_ok \<Longrightarrow> new_item status l w = Inl AssertFailed"
  by (simp add: new_item_def Let_def)

lemma with_item_simps [simp]:
  "heap (with_item l w) = (heap w)(brk w \<mapsto> \<lparr>the_prime = idx_outer l, next_item = first l,
                                     call_has_returned = False, return_value = False\<rparr>)"
  "queue (with_item l w) = queue w @ [brk w]"
  "brk (with_item l w) = brk w + 1"
  "trace (with_item l w) = trace w @ [Malloc (brk w), ThreadsafeCall (brk w)]"
  "check_status_mutex (with_item l w) = check_status_mutex w"
  "js_accepts (with_item l w) = js_accepts w"
  "tsfn (with_item l w) = tsfn w"
  by (simp_all add: with_item_def)

lemma pass_rest_plain: "pass_rest False status l w = check_pending l w"
  by (simp add: pass_rest_def)

lemma pass_rest_sent:
  "pass_rest True napi_ok l w = check_pending (l\<lparr>first := Some (brk w)\<rparr>) (with_item l w)"
  by (simp add: pass_rest_def new_item_ok)

lemma pass_rest_refused: "status \<noteq> napi_ok \<Longrightarrow> pass_rest True status l w = Some (Inl AssertFailed)"
  by (simp add: pass_rest_def new_item_refused)

lemma with_item_pending:
  assumes "pending (heap w) (first l) xs" and "\<forall>x\<in>set xs. x < brk w"
  shows "pending (heap (with_item l w)) (Some (brk w)) (brk w # xs)"
  using new_item_wf[OF assms(1) pending_distinct[OF assms(1)] assms(2) new_item_ok] by simp

lemma is_prime_by_root:
  assumes p: "2 \<le> p" and r: "0 \<le> r" and root: "p < (r + 1) * (r + 1)"
    and none: "\<forall>d\<in>{2..r}. \<not> d dvd p"
  shows "is_prime p"
  unfolding is_prime_def
proof (intro conjI ballI notI)
  show "2 \<le> p" by fact
next
  fix d assume d: "d \<in> {2..<p}" and dv: "d dvd p"
  from dv obtain e where e: "p = d * e" ..
  from d have d2: "2 \<le> d" and dp: "d < p" by simp_all
  have e2: "2 \<le> e"
  proof (rule ccontr)
    assume "\<not> 2 \<le> e"
    then have "e \<le> 1" by simp
    with d2 have "d * e \<le> d * 1" by (intro mult_left_mono) simp_all
    with e dp show False by simp
  qed
  have "d \<le> r \<or> e \<le> r"
  proof (rule ccontr)
    assume "\<not> (d \<le> r \<or> e \<le> r)"
    then have "r + 1 \<le> d" "r + 1 \<le> e" by simp_all
    with r d2 have "(r + 1) * (r + 1) \<le> d * e" by (intro mult_mono) simp_all
    with e root show False by simp
  qed
  then show False
  proof
    assume "d \<le> r"
    with d2 none dv show False by simp
  next
    assume "e \<le> r"
    moreover from e have "e dvd p" by simp
    ultimately show False using e2 none by simp
  qed
qed

lemma is_prime_7919: "is_prime 7919"
proof (rule is_prime_by_root[where r = 88])
  show "\<forall>d\<in>{2..88::int}. \<not> d dvd 7919" unfolding set_upto[symmetric] by code_simp
qed simp_all

lemma is_prime_37813: "is_prime 37813"
proof (rule is_prime_by_root[where r = 194])
  show "\<forall>d\<in>{2..194::int}. \<not> d dvd 37813" unfolding set_upto[symmetric] by code_simp
qed simp_all

lemma PrimeThread_pass_rest:
  "PrimeThread_pass status l w
     = pass_rest (snd (report_test l)) status (l\<lparr>prime_count := fst (report_test l)\<rparr>) w"
  by (simp add: PrimeThread_pass_def split: prod.splits)

lemma check_pending_returns:
  assumes pend: "pending (heap w) (first l) xs"
    and free: "\<not> check_status_mutex w" and small: "idx_outer l \<noteq> INT_MAX"
  shows "\<exists>r. check_pending l w = Some (Inr r)"
proof (cases "\<forall>a\<in>set xs. \<not> resolved (heap w) a")
  case True
  with check_pending_cases[OF pend free small] show ?thesis by blast
next
  case False
  then have "\<exists>a\<in>set xs. resolved (heap w) a" by simp
  from split_list_first_prop[OF this] obtain ys a zs where
    dec: "xs = ys @ a # zs \<and> (\<forall>y\<in>set ys. \<not> resolved (heap w) y) \<and> resolved (heap w) a"
    by blast
  show ?thesis
  proof (cases "result_of (heap w) a")
    case True
    with check_pending_cases[OF pend free small] dec show ?thesis by blast
  next
    case False
    with check_pending_cases[OF pend free small] dec show ?thesis by blast
  qed
qed

lemma with_item_count [simp]: "with_item (l\<lparr>prime_count := c\<rparr>) w = with_item l w"
  by (simp add: with_item_def)

lemma PrimeThread_pass_cases:
  "PrimeThread_pass status l w =
     (if snd (report_test l)
      then if status = napi_ok
           then check_pending (l\<lparr>prime_count := fst (report_test l), first := Some (brk w)\<rparr>)
                  (with_item l w)
           else Some (Inl AssertFailed)
      else check_pending (l\<lparr>prime_count := fst (report_test l)\<rparr>) w)"
  by (simp add: PrimeThread_pass_rest pass_rest_plain pass_rest_sent pass_rest_refused)

lemma pass_returns:
  assumes pend: "pending (heap w) (first l) xs" and below: "\<forall>x\<in>set xs. x < brk w"
    and free: "\<not> check_status_mutex w" and small: "idx_outer l \<noteq> INT_MAX"
  shows "\<exists>r. PrimeThread_pass napi_ok l w = Some (Inr r)"
proof (cases "snd (report_test l)")
  case True
  let ?l1 = "l\<lparr>prime_count := fst (report_test l), first := Some (brk w)\<rparr>"
  have "pending (heap (with_item l w)) (first ?l1) (brk w # xs)"
    using with_item_pending[OF pend below] by simp
  from check_pending_returns[OF this] free small True show ?thesis
    by (simp add: PrimeThread_pass_cases)
next
  case False
  let ?l1 = "l\<lparr>prime_count := fst (report_test l)\<rparr>"
  from pend have "pending (heap w) (first ?l1) xs" by simp
  from check_pending_returns[OF this] free small False show ?thesis
    by (simp add: PrimeThread_pass_cases)
qed

lemma report_test_own:
  "2 \<le> idx_outer l \<Longrightarrow>
     report_test l = (if is_prime (idx_outer l)
                      then (prime_count l + 1, (prime_count l + 1) mod REPORT_EVERY = 0)
                      else (prime_count l, False))"
  by (simp add: report_test_def Let_def trial_division_prime)

lemma report_test_three: "report_test three_locals = (3000, False)"
proof -
  have "trial_division 27450 2 = 2" by (subst trial_division.simps) simp
  then show ?thesis by (simp add: report_test_def three_locals_def)
qed

lemma report_test_reporting: "report_test reporting_locals = (4000, True)"
  using is_prime_37813
  by (simp add: report_test_own reporting_locals_def REPORT_EVERY_def)

lemma report_test_7919: "report_test at_7919 = (1000, True)"
  using is_prime_7919
  by (simp add: report_test_own at_7919_def REPORT_EVERY_def)


subsection \<open>The invariant of the bridge\<close>

lemma create_inv: "1 \<le> n \<Longrightarrow> bridge_inv (create cap n)"
  by (simp add: bridge_inv_def create_def)

lemma apply_op_inv: "bridge_inv b \<Longrightarrow> apply_op operation b = Inr b' \<Longrightarrow> bridge_inv b'"
  by (cases operation)
     (auto simp: bridge_inv_def apply_op_def acquire_def call_def release_def dispatch_def
        split: if_splits list.splits sum.splits prod.splits
               napi_threadsafe_function_call_mode.splits)

lemma run_ops_inv: "bridge_inv b \<Longrightarrow> run_ops ops b = Inr b' \<Longrightarrow> bridge_inv b'"
proof (induction ops arbitrary: b)
  case Nil
  then show ?case by simp
next
  case (Cons operation ops)
  from Cons.prems(2) obtain b1 where b1: "apply_op operation b = Inr b1"
    and rest: "run_ops ops b1 = Inr b'"
    by (auto split: sum.splits)
  from apply_op_inv[OF Cons.prems(1) b1] have "bridge_inv b1" .
  from Cons.IH[OF this rest] show ?case .
qed


section \<open>The properties\<close>

subsection \<open>The items of an even/odd producer thread\<close>

text \<open>
  Claim C9, as stated, asks every even/odd producer thread to enqueue exactly one marked
  item. A thread whose fourth call returns \<open>napi_closing\<close> has enqueued three items and
  none of them is marked: the number of marked items it enqueued is not one.
\<close>

theorem one_thread_closing_counterexample:
  "length (filter marked
     (enqueued (one_thread (closing_at 3) 0 \<lparr>thread = 0, is_even = True\<rparr>))) \<noteq> 1"
  by (simp add: one_thread_def loop_go_on loop_closing closing_at_def ITERATION_COUNT_def
        make_item_def marked_def)

text \<open>
  Claim C9, amended. For a thread whose calls (they are blocking calls) never return
  \<open>queue_full\<close>: it enqueues at most 100 items; the \<open>n\<close>-th item it enqueues carries
  the value \<open>2 * n\<close> when \<open>is_even\<close> is true and \<open>2 * n + 1\<close> otherwise, and its
  \<open>thread_to_join\<close> is the thread's own data when \<open>n = 99\<close> and \<open>NULL\<close> before; and
  when no call returns \<open>napi_closing\<close> (all 100 return \<open>napi_ok\<close>) the thread enqueues
  exactly 100 items, of which exactly one, the last, is marked.
\<close>

theorem one_thread_items:
  assumes "\<forall>k. respond k \<noteq> napi_queue_full"
  shows "length (enqueued (one_thread respond td d)) \<le> ITERATION_COUNT
    \<and> (\<forall>n < length (enqueued (one_thread respond td d)).
         item_value (enqueued (one_thread respond td d) ! n)
           = 2 * int n + (if is_even d then 0 else 1)
         \<and> thread_to_join (enqueued (one_thread respond td d) ! n)
           = (if n = 99 then Some td else None))
    \<and> ((\<forall>k < ITERATION_COUNT. respond k = napi_ok) \<longrightarrow>
         length (enqueued (one_thread respond td d)) = 100
         \<and> filter marked (enqueued (one_thread respond td d)) = [make_item td d 99])"
proof -
  let ?xs = "enqueued (one_thread respond td d)"
  from loop_enqueued[OF assms, of 0 td d] obtain m where
    m: "m \<le> ITERATION_COUNT" "?xs = map (make_item td d) [0..<m]"
       "\<forall>k. k < m \<longrightarrow> respond k = napi_ok" "m < ITERATION_COUNT \<longrightarrow> respond m = napi_closing"
    by (auto simp: one_thread_def)
  have len: "length ?xs = m" using m(2) by simp
  have a: "length ?xs \<le> ITERATION_COUNT" using len m(1) by simp
  have b: "\<forall>n < length ?xs. item_value (?xs ! n) = 2 * int n + (if is_even d then 0 else 1)
         \<and> thread_to_join (?xs ! n) = (if n = 99 then Some td else None)"
    using m(2) by (simp add: make_item_def ITERATION_COUNT_def)
  have c: "(\<forall>k < ITERATION_COUNT. respond k = napi_ok) \<longrightarrow>
         length ?xs = 100 \<and> filter marked ?xs = [make_item td d 99]"
  proof
    assume all: "\<forall>k < ITERATION_COUNT. respond k = napi_ok"
    have "\<not> m < ITERATION_COUNT" using all m(4) by auto
    with m(1) have m100: "m = 100" by (simp add: ITERATION_COUNT_def)
    have "[0..<100] = [0..<99] @ [99::nat]" using upt_Suc_append[of 0 99] by simp
    moreover have "filter marked (map (make_item td d) [0..<99]) = []"
      by (auto simp: filter_empty_conv marked_def make_item_def ITERATION_COUNT_def)
    ultimately have "filter marked (map (make_item td d) [0..<100]) = [make_item td d 99]"
      by (simp add: marked_def make_item_def ITERATION_COUNT_def)
    then show "length ?xs = 100 \<and> filter marked ?xs = [make_item td d 99]"
      using m(2) m100 by simp
  qed
  show ?thesis using a b c by blast
qed

theorem one_thread_items_witness:
  "(\<forall>k. always_ok k \<noteq> napi_queue_full)
   \<and> (\<forall>k. always_ok k = napi_ok)
   \<and> length (enqueued (one_thread always_ok 7 \<lparr>thread = 1, is_even = False\<rparr>)) = 100
   \<and> item_value (enqueued (one_thread always_ok 7 \<lparr>thread = 1, is_even = False\<rparr>) ! 5) = 11
   \<and> thread_to_join (enqueued (one_thread always_ok 7 \<lparr>thread = 1, is_even = False\<rparr>) ! 5) = None
   \<and> thread_to_join (enqueued (one_thread always_ok 7 \<lparr>thread = 1, is_even = False\<rparr>) ! 99) = Some 7
   \<and> filter marked (enqueued (one_thread always_ok 7 \<lparr>thread = 1, is_even = False\<rparr>))
        = [make_item 7 \<lparr>thread = 1, is_even = False\<rparr> 99]"
proof -
  have h: "\<forall>k. always_ok k \<noteq> napi_queue_full" by (simp add: always_ok_def)
  have ok: "\<forall>k. always_ok k = napi_ok" by (simp add: always_ok_def)
  note t = one_thread_items[OF h, of 7 "\<lparr>thread = 1, is_even = False\<rparr>"]
  from t ok have len: "length (enqueued (one_thread always_ok 7 \<lparr>thread = 1, is_even = False\<rparr>)) = 100"
    and fil: "filter marked (enqueued (one_thread always_ok 7 \<lparr>thread = 1, is_even = False\<rparr>))
        = [make_item 7 \<lparr>thread = 1, is_even = False\<rparr> 99]"
    by blast+
  from t len have five: "item_value (enqueued (one_thread always_ok 7 \<lparr>thread = 1, is_even = False\<rparr>) ! 5) = 11"
    "thread_to_join (enqueued (one_thread always_ok 7 \<lparr>thread = 1, is_even = False\<rparr>) ! 5) = None"
    "thread_to_join (enqueued (one_thread always_ok 7 \<lparr>thread = 1, is_even = False\<rparr>) ! 99) = Some 7"
    by simp_all
  show ?thesis using h ok len fil five by blast
qed

subsection \<open>Which numbers the prime producer reports\<close>

text \<open>
  Claim C10. For every \<open>idx_outer\<close> with which the thread enters a pass of its outer loop
  (all are at least 2): the trial division ends with \<open>idx_inner \<ge> idx_outer\<close> if and
  only if \<open>idx_outer\<close> is prime; the test of line 119 succeeds, and the block that
  creates and enqueues an item is entered, if and only if \<open>idx_outer\<close> is prime and its
  ordinal among the primes, counted from 2 upwards, is a multiple of 1000; and a pass
  that completes has appended one item to the queue of the bridge when the test
  succeeded and has left the queue as it was otherwise. For any loop variables with
  \<open>idx_outer \<ge> 2\<close>, reached or not, the test succeeds if and only if \<open>idx_outer\<close> is
  prime and the thread's own count, incremented, is a multiple of 1000. The block of
  lines 120 to 132 (\<open>new_item\<close>), when the call answers \<open>napi_ok\<close>, yields the state
  \<open>with_item l w\<close>: the address \<open>brk w\<close> is appended to the queue of the bridge and the
  record there has \<open>the_prime = idx_outer\<close>; with any other answer the assertion of line
  129 fails. So a pass whose test succeeds is the enqueue followed by the walk over
  the list, or the failed assertion, and a pass whose test fails is the walk alone.
  From a state with a well-formed pending list and with the answer \<open>napi_ok\<close> the pass
  completes, and the queue has gained the item exactly when the test succeeded.
\<close>

theorem prime_thread_reports:
  "(examined l \<longrightarrow>
      2 \<le> idx_outer l
      \<and> (idx_outer l \<le> trial_division (idx_outer l) 2 \<longleftrightarrow> is_prime (idx_outer l))
      \<and> (snd (report_test l) \<longleftrightarrow>
           is_prime (idx_outer l) \<and> primes_upto (idx_outer l) mod REPORT_EVERY = 0)
      \<and> (\<forall>status w. PrimeThread_pass status l w =
           pass_rest (is_prime (idx_outer l) \<and> primes_upto (idx_outer l) mod REPORT_EVERY = 0)
             status (l\<lparr>prime_count := primes_upto (idx_outer l)\<rparr>) w)
      \<and> (\<forall>status w r. PrimeThread_pass status l w = Some (Inr r) \<longrightarrow>
           queue (world_of r) = (if snd (report_test l) then queue w @ [brk w] else queue w)))
   \<and> (2 \<le> idx_outer l \<longrightarrow>
        (idx_outer l \<le> trial_division (idx_outer l) 2 \<longleftrightarrow> is_prime (idx_outer l))
        \<and> (snd (report_test l) \<longleftrightarrow>
             is_prime (idx_outer l) \<and> (prime_count l + 1) mod REPORT_EVERY = 0))
   \<and> new_item status l w
        = (if status = napi_ok then Inr (l\<lparr>first := Some (brk w)\<rparr>, with_item l w)
           else Inl AssertFailed)
   \<and> queue (with_item l w) = queue w @ [brk w]
   \<and> heap (with_item l w) (brk w)
        = Some \<lparr>the_prime = idx_outer l, next_item = first l,
                call_has_returned = False, return_value = False\<rparr>
   \<and> PrimeThread_pass status l w
        = (if snd (report_test l)
           then if status = napi_ok
                then check_pending
                       (l\<lparr>prime_count := fst (report_test l), first := Some (brk w)\<rparr>)
                       (with_item l w)
                else Some (Inl AssertFailed)
           else check_pending (l\<lparr>prime_count := fst (report_test l)\<rparr>) w)
   \<and> (pending (heap w) (first l) xs \<and> (\<forall>x\<in>set xs. x < brk w)
        \<and> \<not> check_status_mutex w \<and> idx_outer l \<noteq> INT_MAX \<longrightarrow>
        (\<exists>r. PrimeThread_pass napi_ok l w = Some (Inr r)
           \<and> queue (world_of r)
               = (if snd (report_test l) then queue w @ [brk w] else queue w)))"
  (is "(_ \<longrightarrow> ?old) \<and> (_ \<longrightarrow> ?test) \<and> ?item \<and> ?sent \<and> ?cell \<and> ?pass \<and> (?wf \<longrightarrow> ?ends)")
proof -
  have old: ?old if ex: "examined l"
  proof -
    from examined_invariant[OF ex]
    have ge: "2 \<le> idx_outer l" and cnt: "prime_count l = primes_upto (idx_outer l - 1)"
      by simp_all
    have a: "idx_outer l \<le> trial_division (idx_outer l) 2 \<longleftrightarrow> is_prime (idx_outer l)"
      using ge by (rule trial_division_prime)
    have b: "snd (report_test l) \<longleftrightarrow>
           is_prime (idx_outer l) \<and> primes_upto (idx_outer l) mod REPORT_EVERY = 0"
      using report_test_eq[OF ge cnt] by simp
    have c: "PrimeThread_pass status l w' =
           pass_rest (is_prime (idx_outer l) \<and> primes_upto (idx_outer l) mod REPORT_EVERY = 0)
             status (l\<lparr>prime_count := primes_upto (idx_outer l)\<rparr>) w'" for status w'
      using report_test_eq[OF ge cnt] by (simp add: PrimeThread_pass_def)
    show ?thesis using ge a b c pass_queue by blast
  qed
  have test: ?test if ge: "2 \<le> idx_outer l"
    using trial_division_prime[OF ge] report_test_own[OF ge] by simp
  have item: ?item by (simp add: new_item_ok new_item_refused)
  have sent: ?sent by simp
  have cell: ?cell by simp
  have pass: ?pass by (rule PrimeThread_pass_cases)
  have ends: ?ends if wf: ?wf
  proof -
    from wf have pend: "pending (heap w) (first l) xs" and below: "\<forall>x\<in>set xs. x < brk w"
      and free: "\<not> check_status_mutex w" and small: "idx_outer l \<noteq> INT_MAX"
      by simp_all
    from pass_returns[OF pend below free small] obtain r where
      r: "PrimeThread_pass napi_ok l w = Some (Inr r)" ..
    from pass_queue[OF r]
    have "queue (world_of r) = (if snd (report_test l) then queue w @ [brk w] else queue w)" .
    with r show ?thesis by blast
  qed
  show ?thesis using old test item sent cell pass ends by blast
qed

theorem prime_thread_reports_witness:
  "examined PrimeThread_start
   \<and> idx_outer PrimeThread_start = 2
   \<and> trial_division 2 2 = 2
   \<and> is_prime 2
   \<and> \<not> snd (report_test PrimeThread_start)
   \<and> PrimeThread_pass napi_ok PrimeThread_start empty_world
       = Some (Inr (Running \<lparr>idx_outer = 3, prime_count = 1, first = None\<rparr> empty_world))
   \<and> queue (world_of (Running \<lparr>idx_outer = 3, prime_count = 1, first = None\<rparr> empty_world))
       = queue empty_world
   \<and> 2 \<le> idx_outer at_7919
   \<and> is_prime 7919
   \<and> 7919 \<le> trial_division 7919 2
   \<and> snd (report_test at_7919)
   \<and> new_item napi_ok at_7919 empty_world
       = Inr (\<lparr>idx_outer = 7919, prime_count = 999, first = Some 0\<rparr>,
              \<lparr>check_status_mutex = False, tsfn = True, js_accepts = True,
               heap = [0 \<mapsto> \<lparr>the_prime = 7919, next_item = None,
                               call_has_returned = False, return_value = False\<rparr>],
               brk = 1, queue = [0], trace = [Malloc 0, ThreadsafeCall 0]\<rparr>)
   \<and> new_item napi_closing at_7919 empty_world = Inl AssertFailed
   \<and> PrimeThread_pass napi_ok at_7919 empty_world
       = Some (Inr (Running \<lparr>idx_outer = 7920, prime_count = 1000, first = Some 0\<rparr>
              \<lparr>check_status_mutex = False, tsfn = True, js_accepts = True,
               heap = [0 \<mapsto> \<lparr>the_prime = 7919, next_item = None,
                               call_has_returned = False, return_value = False\<rparr>],
               brk = 1, queue = [0],
               trace = [Malloc 0, ThreadsafeCall 0, MutexLock, Examine 0, MutexUnlock]\<rparr>))
   \<and> PrimeThread_pass napi_closing at_7919 empty_world = Some (Inl AssertFailed)
   \<and> pending (heap empty_world) (first at_7919) []
   \<and> \<not> check_status_mutex empty_world
   \<and> idx_outer at_7919 \<noteq> INT_MAX
   \<and> (\<exists>r. PrimeThread_pass napi_ok at_7919 empty_world = Some (Inr r)
          \<and> queue (world_of r) = [0])"
proof -
  have ex: "examined PrimeThread_start" by (rule examined.start)
  have i2: "idx_outer PrimeThread_start = 2" by (simp add: PrimeThread_start_def)
  have nr: "\<not> snd (report_test PrimeThread_start)"
    by (simp add: report_test_def PrimeThread_start_def trial_division_2 REPORT_EVERY_def)
  note t = prime_thread_reports[of PrimeThread_start napi_ok empty_world "[]"]
  from t ex i2 have p2: "is_prime 2" by (simp add: trial_division_2)
  from t ex nr start_pass
  have q: "queue (world_of (Running \<lparr>idx_outer = 3, prime_count = 1, first = None\<rparr> empty_world))
       = queue empty_world"
    by simp
  have ge: "2 \<le> idx_outer at_7919" by (simp add: at_7919_def)
  have i7: "idx_outer at_7919 = 7919" "prime_count at_7919 = 999" "first at_7919 = None"
    by (simp_all add: at_7919_def)
  note s = prime_thread_reports[of at_7919 napi_ok empty_world "[]"]
  note c = prime_thread_reports[of at_7919 napi_closing empty_world "[]"]
  from s ge i7 is_prime_7919 have td: "7919 \<le> trial_division 7919 2" by simp
  from s ge i7 is_prime_7919 have rep: "snd (report_test at_7919)"
    by (simp add: REPORT_EVERY_def)
  have wi: "with_item at_7919 empty_world
      = \<lparr>check_status_mutex = False, tsfn = True, js_accepts = True,
               heap = [0 \<mapsto> \<lparr>the_prime = 7919, next_item = None,
                               call_has_returned = False, return_value = False\<rparr>],
               brk = 1, queue = [0], trace = [Malloc 0, ThreadsafeCall 0]\<rparr>"
    by (simp add: with_item_def at_7919_def empty_world_def emit_def)
  from s have ni: "new_item napi_ok at_7919 empty_world
       = Inr (\<lparr>idx_outer = 7919, prime_count = 999, first = Some 0\<rparr>,
              \<lparr>check_status_mutex = False, tsfn = True, js_accepts = True,
               heap = [0 \<mapsto> \<lparr>the_prime = 7919, next_item = None,
                               call_has_returned = False, return_value = False\<rparr>],
               brk = 1, queue = [0], trace = [Malloc 0, ThreadsafeCall 0]\<rparr>)"
    by (simp add: wi) (simp add: at_7919_def empty_world_def)
  from c have nc: "new_item napi_closing at_7919 empty_world = Inl AssertFailed" by simp
  have b0: "brk empty_world = 0" by (simp add: empty_world_def)
  have cp: "check_pending (at_7919\<lparr>prime_count := 1000, first := Some 0\<rparr>)
               \<lparr>check_status_mutex = False, tsfn = True, js_accepts = True,
               heap = [0 \<mapsto> \<lparr>the_prime = 7919, next_item = None,
                               call_has_returned = False, return_value = False\<rparr>],
               brk = 1, queue = [0], trace = [Malloc 0, ThreadsafeCall 0]\<rparr>
       = Some (Inr (Running \<lparr>idx_outer = 7920, prime_count = 1000, first = Some 0\<rparr>
              \<lparr>check_status_mutex = False, tsfn = True, js_accepts = True,
               heap = [0 \<mapsto> \<lparr>the_prime = 7919, next_item = None,
                               call_has_returned = False, return_value = False\<rparr>],
               brk = 1, queue = [0],
               trace = [Malloc 0, ThreadsafeCall 0, MutexLock, Examine 0, MutexUnlock]\<rparr>))"
    by (simp add: at_7919_def check_pending_def
          scan_pending.simps scan_node_def uv_mutex_lock_def uv_mutex_unlock_def emit_def
          settle_def next_pass_def INT_MAX_def Let_def)
  from s rep have "PrimeThread_pass napi_ok at_7919 empty_world
      = check_pending (at_7919\<lparr>prime_count := fst (report_test at_7919),
                                first := Some (brk empty_world)\<rparr>)
          (with_item at_7919 empty_world)"
    by simp
  with cp have po: "PrimeThread_pass napi_ok at_7919 empty_world
       = Some (Inr (Running \<lparr>idx_outer = 7920, prime_count = 1000, first = Some 0\<rparr>
              \<lparr>check_status_mutex = False, tsfn = True, js_accepts = True,
               heap = [0 \<mapsto> \<lparr>the_prime = 7919, next_item = None,
                               call_has_returned = False, return_value = False\<rparr>],
               brk = 1, queue = [0],
               trace = [Malloc 0, ThreadsafeCall 0, MutexLock, Examine 0, MutexUnlock]\<rparr>))"
    by (simp add: wi report_test_7919 b0)
  from c rep have pc: "PrimeThread_pass napi_closing at_7919 empty_world = Some (Inl AssertFailed)"
    by simp
  have pe: "pending (heap empty_world) (first at_7919) []"
    by (simp add: empty_world_def at_7919_def)
  have fm: "\<not> check_status_mutex empty_world" by (simp add: empty_world_def)
  have sm: "idx_outer at_7919 \<noteq> INT_MAX" by (simp add: at_7919_def INT_MAX_def)
  from s have "pending (heap empty_world) (first at_7919) []
        \<and> (\<forall>x\<in>set []. x < brk empty_world)
        \<and> \<not> check_status_mutex empty_world \<and> idx_outer at_7919 \<noteq> INT_MAX \<longrightarrow>
      (\<exists>r. PrimeThread_pass napi_ok at_7919 empty_world = Some (Inr r)
         \<and> queue (world_of r)
             = (if snd (report_test at_7919) then queue empty_world @ [brk empty_world]
                else queue empty_world))"
    by blast
  with pe fm sm rep
  have "\<exists>r. PrimeThread_pass napi_ok at_7919 empty_world = Some (Inr r)
          \<and> queue (world_of r) = queue empty_world @ [brk empty_world]"
    by simp
  then have en: "\<exists>r. PrimeThread_pass napi_ok at_7919 empty_world = Some (Inr r)
          \<and> queue (world_of r) = [0]"
    by (simp add: empty_world_def)
  show ?thesis
    using ex i2 trial_division_2 p2 nr start_pass q ge is_prime_7919 td rep ni nc po pc pe fm sm en
    by blast
qed


subsection \<open>The registration entry point\<close>

text \<open>
  Claim C7, as stated, lets \<open>RegisterReturnValue\<close> change nothing but the two scalars of
  the record. With \<open>js_accepts\<close> true and the value \<open>false\<close> it also changes
  \<open>js_accepts\<close>, a field of the shared \<open>AddonData\<close>.
\<close>

theorem register_return_value_counterexample:
  "RegisterReturnValue 0 False one_item_world =
     Inr (one_item_world
            \<lparr>js_accepts := False,
             heap := [0 \<mapsto> \<lparr>the_prime = 7919, next_item = None,
                              call_has_returned = True, return_value = False\<rparr>],
             trace := [MutexLock, MutexUnlock]\<rparr>)
   \<and> js_accepts one_item_world"
  by (simp add: one_item_world_def exec)

text \<open>
  Claim C7, amended. Called with an allocated record and a boolean \<open>v\<close> while the mutex
  is free, \<open>RegisterReturnValue\<close> acquires the mutex, sets the record's
  \<open>call_has_returned\<close> to true and its \<open>return_value\<close> to \<open>v\<close>, and releases the mutex;
  besides, it sets \<open>js_accepts\<close> to false when \<open>v\<close> is false (\<open>js_accepts\<close> becomes
  \<open>js_accepts \<and> v\<close>); everything else (the record's other fields, the other records, the
  other fields of the shared state) is as before.
\<close>

theorem register_return_value_effect:
  assumes "heap w item = Some it" and "\<not> check_status_mutex w"
  shows "RegisterReturnValue item v w =
           Inr (w\<lparr>js_accepts := js_accepts w \<and> v,
                  heap := (heap w)(item \<mapsto> it\<lparr>call_has_returned := True, return_value := v\<rparr>),
                  trace := trace w @ [MutexLock, MutexUnlock]\<rparr>)"
  using assms
  by (cases w)
     (auto simp: RegisterReturnValue_def uv_mutex_lock_def uv_mutex_unlock_def emit_def Let_def)

theorem register_return_value_effect_witness:
  "heap one_item_world 0 = Some \<lparr>the_prime = 7919, next_item = None,
                                  call_has_returned = False, return_value = False\<rparr>
   \<and> \<not> check_status_mutex one_item_world
   \<and> RegisterReturnValue 0 True one_item_world =
       Inr (one_item_world
              \<lparr>js_accepts := True,
               heap := [0 \<mapsto> \<lparr>the_prime = 7919, next_item = None,
                                call_has_returned = True, return_value = True\<rparr>],
               trace := [MutexLock, MutexUnlock]\<rparr>)"
proof -
  have h: "heap one_item_world 0 = Some \<lparr>the_prime = 7919, next_item = None,
                                  call_has_returned = False, return_value = False\<rparr>"
    by (simp add: one_item_world_def empty_world_def)
  have m: "\<not> check_status_mutex one_item_world"
    by (simp add: one_item_world_def empty_world_def)
  from register_return_value_effect[OF h m, of True] h m show ?thesis
    by (simp add: one_item_world_def empty_world_def)
qed

subsection \<open>\<open>js_accepts\<close> never comes back\<close>

text \<open>
  Claim C8. Once a \<open>RegisterReturnValue\<close> call has carried the value \<open>false\<close>,
  \<open>js_accepts\<close> is false, and whatever the two threads do afterwards (passes of the
  secondary thread, deliveries to \<open>CallJs\<close>, further \<open>RegisterReturnValue\<close> calls with
  either value) it stays false and \<open>CallJs\<close> makes none of its calls into JavaScript: no
  \<open>napi_new_instance\<close>, no \<open>napi_wrap\<close>, no \<open>napi_call_function\<close>.
\<close>

theorem js_accepts_monotone:
  assumes "step (Register item False) s = Some (Inr s1)" and "run es s1 = Some (Inr s2)"
  shows "\<not> js_accepts (shared s1) \<and> \<not> js_accepts (shared s2)
         \<and> js_calls (shared s2) = js_calls (shared s1)"
  using register_false[OF assms(1)] run_refused[OF _ assms(2)] by simp

theorem js_accepts_monotone_witness:
  "\<exists>s1 s2. step (Register 0 False) two_sent = Some (Inr s1)
     \<and> run [Deliver (Some 0) (Some 0), Register 0 True, Pass False napi_ok] s1 = Some (Inr s2)
     \<and> \<not> js_accepts (shared s2)
     \<and> js_calls (shared s2) = js_calls (shared s1)"
proof -
  have "\<exists>s1 s2. step (Register 0 False) two_sent = Some (Inr s1)
     \<and> run [Deliver (Some 0) (Some 0), Register 0 True, Pass False napi_ok] s1 = Some (Inr s2)"
    by (simp add: two_sent_def exec)
  then obtain s1 s2 where s1: "step (Register 0 False) two_sent = Some (Inr s1)"
    and s2: "run [Deliver (Some 0) (Some 0), Register 0 True, Pass False napi_ok] s1 = Some (Inr s2)"
    by blast
  from js_accepts_monotone[OF s1 s2] s1 s2 show ?thesis by blast
qed

subsection \<open>An answer that arrives after the thread has stopped\<close>

text \<open>
  Claim C1 asks that the registration entry point is never run on a record that the
  producer has freed. In the run \<open>late_answer\<close> the thread sends two items, both are
  delivered to JavaScript, and the first is answered with \<open>false\<close>. The thread's next
  pass finds that answer, leaves the loop and frees the second item, which has not been
  answered. When JavaScript then answers the second item (with \<open>true\<close>),
  \<open>RegisterReturnValue\<close> writes into the freed record. The same happens from the state
  \<open>two_sent\<close>, once the second item has been delivered. In the run \<open>second_answer\<close>
  an item is answered with \<open>true\<close>, the thread sees the answer and frees the item, and
  JavaScript passes the same object to \<open>registerReturnValue\<close> once more.
\<close>

theorem late_answer_use_after_free:
  "run late_answer initial = Some (Inl (UseAfterFree 1))
   \<and> run [Deliver (Some 0) (Some 0), Register 0 False, Pass False napi_ok, Register 1 True]
         two_sent = Some (Inl (UseAfterFree 1))
   \<and> run second_answer initial = Some (Inl (UseAfterFree 0))"
  by (simp add: late_answer_def two_items_delivered_def second_answer_def two_sent_def exec)

subsection \<open>One pass over the pending list\<close>

text \<open>
  Claim C4. One iteration of the loop is \<open>PrimeThread_pass\<close>: the test of line 119
  (\<open>report_test\<close>), then \<open>pass_rest\<close>, which first enqueues a new item when the test
  succeeded (an answer other than \<open>napi_ok\<close> fails the assertion of line 129) and then,
  whether it enqueued or not, walks the pending list and reads each record's
  \<open>call_has_returned\<close> between a lock and an unlock of the mutex (the trace of an
  examination is \<open>visit\<close>). Let \<open>xs\<close> be the well-formed list the iteration starts with,
  and \<open>added report w\<close> the item it has put in front of it, if any (its address is
  \<open>brk w\<close>, which no record of \<open>xs\<close> has). When no record of \<open>xs\<close> is resolved the walk
  examines the new item and every record of \<open>xs\<close>, leaves them as they are, and the
  thread goes on. Otherwise the record \<open>a\<close> it finds resolved (the first in list order,
  behind the unresolved \<open>ys\<close> and before \<open>zs\<close>) is unhooked, so that the list becomes the
  new item, \<open>ys\<close> and \<open>zs\<close>; then either \<open>a\<close> is freed and the thread goes on, when its
  result is true, or, when its result is false, the thread leaves its loop, frees every
  record still in the list, the new item included (the record \<open>a\<close> itself stays
  allocated), and releases the bridge. In each case the queue of the bridge has gained
  exactly the new item.
\<close>

theorem pass_outcome:
  assumes pend: "pending (heap w) (first l) xs"
    and fresh: "report \<longrightarrow> (\<forall>x\<in>set xs. x < brk w)"
    and free: "\<not> check_status_mutex w" and small: "idx_outer l \<noteq> INT_MAX"
  shows
    "(\<forall>l0. PrimeThread_pass status l0 w
        = pass_rest (snd (report_test l0)) status (l0\<lparr>prime_count := fst (report_test l0)\<rparr>) w)
     \<and> (report \<and> status \<noteq> napi_ok \<longrightarrow> pass_rest report status l w = Some (Inl AssertFailed))
     \<and> ((report \<longrightarrow> status = napi_ok) \<longrightarrow>
    ((\<forall>a\<in>set xs. \<not> resolved (heap w) a) \<longrightarrow>
        pass_rest report status l w
          = Some (Inr (Running
              (l\<lparr>first := (if report then Some (brk w) else first l),
                 idx_outer := idx_outer l + 1\<rparr>)
              (emit (concat (map visit (added report w @ xs)))
                 (if report then with_item l w else w)))))
     \<and> (\<forall>ys a zs. xs = ys @ a # zs \<and> (\<forall>y\<in>set ys. \<not> resolved (heap w) y)
           \<and> resolved (heap w) a \<longrightarrow>
          (result_of (heap w) a \<longrightarrow>
             (\<exists>l' w'. pass_rest report status l w = Some (Inr (Running l' w'))
                \<and> idx_outer l' = idx_outer l + 1
                \<and> pending (heap w') (first l') (added report w @ ys @ zs)
                \<and> heap w' a = None
                \<and> queue w' = queue w @ added report w
                \<and> trace w' = trace w
                    @ concat (map (\<lambda>b. [Malloc b, ThreadsafeCall b]) (added report w))
                    @ concat (map visit (added report w @ ys @ [a])) @ [Free a]))
          \<and> (\<not> result_of (heap w) a \<longrightarrow>
             (\<exists>w'. pass_rest report status l w = Some (Inr (Stopped w'))
                \<and> (\<forall>b\<in>set (added report w @ ys @ zs). heap w' b = None)
                \<and> heap w' a = heap w a
                \<and> queue w' = queue w @ added report w
                \<and> trace w' = trace w
                    @ concat (map (\<lambda>b. [Malloc b, ThreadsafeCall b]) (added report w))
                    @ concat (map visit (added report w @ ys @ [a]))
                    @ map Free (added report w @ ys @ zs)
                    @ [ThreadsafeRelease napi_tsfn_release]))))"
    (is "?link \<and> ?refused \<and> (?ok \<longrightarrow> ?outcomes)")
proof -
  have link: ?link by (simp add: PrimeThread_pass_rest)
  have refused: ?refused by (auto simp: pass_rest_refused)
  have outcomes: ?outcomes if ok: ?ok
  proof (cases report)
    case False
    note c = check_pending_cases[OF pend free small]
    have q: "check_pending l w = Some (Inr r) \<Longrightarrow> queue (world_of r) = queue w" for r
      by (rule check_pending_queue)
    show ?thesis
    proof (intro conjI allI impI)
      assume "\<forall>a\<in>set xs. \<not> resolved (heap w) a"
      with c False show "pass_rest report status l w
            = Some (Inr (Running
                (l\<lparr>first := (if report then Some (brk w) else first l),
                   idx_outer := idx_outer l + 1\<rparr>)
                (emit (concat (map visit (added report w @ xs)))
                   (if report then with_item l w else w))))"
        by (simp add: pass_rest_plain added_def)
    next
      fix ys a zs
      assume dec: "xs = ys @ a # zs \<and> (\<forall>y\<in>set ys. \<not> resolved (heap w) y) \<and> resolved (heap w) a"
        and val: "result_of (heap w) a"
      with c obtain l' w' where r: "check_pending l w = Some (Inr (Running l' w'))"
        "idx_outer l' = idx_outer l + 1" "pending (heap w') (first l') (ys @ zs)"
        "heap w' a = None" "trace w' = trace w @ concat (map visit (ys @ [a])) @ [Free a]"
        by blast
      from q[OF r(1)] have "queue w' = queue w" by simp
      with r False show "\<exists>l' w'. pass_rest report status l w = Some (Inr (Running l' w'))
                  \<and> idx_outer l' = idx_outer l + 1
                  \<and> pending (heap w') (first l') (added report w @ ys @ zs)
                  \<and> heap w' a = None
                  \<and> queue w' = queue w @ added report w
                  \<and> trace w' = trace w
                      @ concat (map (\<lambda>b. [Malloc b, ThreadsafeCall b]) (added report w))
                      @ concat (map visit (added report w @ ys @ [a])) @ [Free a]"
        by (intro exI[of _ l'] exI[of _ w']) (simp add: pass_rest_plain added_def)
    next
      fix ys a zs
      assume dec: "xs = ys @ a # zs \<and> (\<forall>y\<in>set ys. \<not> resolved (heap w) y) \<and> resolved (heap w) a"
        and val: "\<not> result_of (heap w) a"
      with c obtain w' where r: "check_pending l w = Some (Inr (Stopped w'))"
        "\<forall>b\<in>set (ys @ zs). heap w' b = None" "heap w' a = heap w a"
        "trace w' = trace w @ concat (map visit (ys @ [a])) @ map Free (ys @ zs)
                                 @ [ThreadsafeRelease napi_tsfn_release]"
        by blast
      from q[OF r(1)] have "queue w' = queue w" by simp
      with r False show "\<exists>w'. pass_rest report status l w = Some (Inr (Stopped w'))
                  \<and> (\<forall>b\<in>set (added report w @ ys @ zs). heap w' b = None)
                  \<and> heap w' a = heap w a
                  \<and> queue w' = queue w @ added report w
                  \<and> trace w' = trace w
                      @ concat (map (\<lambda>b. [Malloc b, ThreadsafeCall b]) (added report w))
                      @ concat (map visit (added report w @ ys @ [a]))
                      @ map Free (added report w @ ys @ zs)
                      @ [ThreadsafeRelease napi_tsfn_release]"
        by (intro exI[of _ w']) (simp add: pass_rest_plain added_def)
    qed
  next
    case True
    with fresh ok have ok: "status = napi_ok" and below: "\<forall>x\<in>set xs. x < brk w" by simp_all
    let ?n = "brk w"
    let ?l1 = "l\<lparr>first := Some ?n\<rparr>"
    let ?w1 = "with_item l w"
    from below have new: "?n \<notin> set xs" by auto
    have pend1: "pending (heap ?w1) (first ?l1) (?n # xs)"
      using with_item_pending[OF pend below] by simp
    have free1: "\<not> check_status_mutex ?w1" using free by simp
    have small1: "idx_outer ?l1 \<noteq> INT_MAX" using small by simp
    note c = check_pending_cases[OF pend1 free1 small1]
    have run: "pass_rest report status l w = check_pending ?l1 ?w1"
      using True ok by (simp add: pass_rest_sent)
    have q: "check_pending ?l1 ?w1 = Some (Inr r) \<Longrightarrow> queue (world_of r) = queue w @ [?n]" for r
      using check_pending_queue[of ?l1 ?w1 r] by simp
    have res: "resolved (heap ?w1) x = resolved (heap w) x" if "x \<in> set xs" for x
      using that new by (auto simp: resolved_def)
    have val1: "result_of (heap ?w1) x = result_of (heap w) x" if "x \<in> set xs" for x
      using that new by (auto simp: result_of_def)
    have unres: "\<not> resolved (heap ?w1) ?n" by (simp add: resolved_def)
    show ?thesis
    proof (intro conjI allI impI)
      assume "\<forall>a\<in>set xs. \<not> resolved (heap w) a"
      with res unres have "\<forall>a\<in>set (?n # xs). \<not> resolved (heap ?w1) a" by simp
      with c have "check_pending ?l1 ?w1
            = Some (Inr (Running (?l1\<lparr>idx_outer := idx_outer ?l1 + 1\<rparr>)
                                 (emit (concat (map visit (?n # xs))) ?w1)))"
        by blast
      with run True show "pass_rest report status l w
            = Some (Inr (Running
                (l\<lparr>first := (if report then Some (brk w) else first l),
                   idx_outer := idx_outer l + 1\<rparr>)
                (emit (concat (map visit (added report w @ xs)))
                   (if report then with_item l w else w))))"
        by (simp add: added_def)
    next
      fix ys a zs
      assume dec: "xs = ys @ a # zs \<and> (\<forall>y\<in>set ys. \<not> resolved (heap w) y) \<and> resolved (heap w) a"
        and val: "result_of (heap w) a"
      from dec res unres val1 val
      have dec1: "?n # xs = (?n # ys) @ a # zs \<and> (\<forall>y\<in>set (?n # ys). \<not> resolved (heap ?w1) y)
                    \<and> resolved (heap ?w1) a" and v1: "result_of (heap ?w1) a"
        by auto
      with c obtain l' w' where r: "check_pending ?l1 ?w1 = Some (Inr (Running l' w'))"
        "idx_outer l' = idx_outer ?l1 + 1" "pending (heap w') (first l') ((?n # ys) @ zs)"
        "heap w' a = None"
        "trace w' = trace ?w1 @ concat (map visit ((?n # ys) @ [a])) @ [Free a]"
        by blast
      from q[OF r(1)] have "queue w' = queue w @ [?n]" by simp
      with r run True show "\<exists>l' w'. pass_rest report status l w = Some (Inr (Running l' w'))
                  \<and> idx_outer l' = idx_outer l + 1
                  \<and> pending (heap w') (first l') (added report w @ ys @ zs)
                  \<and> heap w' a = None
                  \<and> queue w' = queue w @ added report w
                  \<and> trace w' = trace w
                      @ concat (map (\<lambda>b. [Malloc b, ThreadsafeCall b]) (added report w))
                      @ concat (map visit (added report w @ ys @ [a])) @ [Free a]"
        by (intro exI[of _ l'] exI[of _ w']) (simp add: added_def)
    next
      fix ys a zs
      assume dec: "xs = ys @ a # zs \<and> (\<forall>y\<in>set ys. \<not> resolved (heap w) y) \<and> resolved (heap w) a"
        and val: "\<not> result_of (heap w) a"
      from dec res unres val1 val
      have dec1: "?n # xs = (?n # ys) @ a # zs \<and> (\<forall>y\<in>set (?n # ys). \<not> resolved (heap ?w1) y)
                    \<and> resolved (heap ?w1) a" and v1: "\<not> result_of (heap ?w1) a"
        by auto
      with c obtain w' where r: "check_pending ?l1 ?w1 = Some (Inr (Stopped w'))"
        "\<forall>b\<in>set ((?n # ys) @ zs). heap w' b = None" "heap w' a = heap ?w1 a"
        "trace w' = trace ?w1 @ concat (map visit ((?n # ys) @ [a])) @ map Free ((?n # ys) @ zs)
                                 @ [ThreadsafeRelease napi_tsfn_release]"
        by blast
      from q[OF r(1)] have qq: "queue w' = queue w @ [?n]" by simp
      from dec new have "a \<noteq> ?n" by auto
      with r(3) have "heap w' a = heap w a" by simp
      with r qq run True show "\<exists>w'. pass_rest report status l w = Some (Inr (Stopped w'))
                  \<and> (\<forall>b\<in>set (added report w @ ys @ zs). heap w' b = None)
                  \<and> heap w' a = heap w a
                  \<and> queue w' = queue w @ added report w
                  \<and> trace w' = trace w
                      @ concat (map (\<lambda>b. [Malloc b, ThreadsafeCall b]) (added report w))
                      @ concat (map visit (added report w @ ys @ [a]))
                      @ map Free (added report w @ ys @ zs)
                      @ [ThreadsafeRelease napi_tsfn_release]"
        by (intro exI[of _ w']) (simp add: added_def)
    qed
  qed
  show ?thesis by (rule conjI, rule link, rule conjI, rule refused, rule impI, erule outcomes)
qed

theorem pass_outcome_witness:
  "pending (heap (three_sent True)) (first three_locals) [2, 1, 0]
   \<and> pending (heap (three_sent True)) (first reporting_locals) [2, 1, 0]
   \<and> brk (three_sent True) = 3
   \<and> \<not> check_status_mutex (three_sent True)
   \<and> idx_outer three_locals \<noteq> INT_MAX \<and> idx_outer reporting_locals \<noteq> INT_MAX
   \<and> \<not> resolved (heap (three_sent True)) 2
   \<and> resolved (heap (three_sent True)) 1
   \<and> result_of (heap (three_sent True)) 1
   \<and> \<not> result_of (heap (three_sent False)) 1
   \<and> report_test three_locals = (3000, False)
   \<and> report_test reporting_locals = (4000, True)
   \<and> (\<exists>l' w'. PrimeThread_pass napi_ok three_locals (three_sent True)
                  = Some (Inr (Running l' w'))
         \<and> idx_outer l' = 27451
         \<and> pending (heap w') (first l') [2, 0]
         \<and> heap w' 1 = None
         \<and> queue w' = []
         \<and> trace w' = [MutexLock, Examine 2, MutexUnlock, MutexLock, Examine 1, MutexUnlock,
                        Free 1])
   \<and> (\<exists>w'. PrimeThread_pass napi_ok three_locals (three_sent False)
               = Some (Inr (Stopped w'))
         \<and> heap w' 2 = None \<and> heap w' 0 = None
         \<and> queue w' = []
         \<and> trace w' = [MutexLock, Examine 2, MutexUnlock, MutexLock, Examine 1, MutexUnlock,
                        Free 2, Free 0, ThreadsafeRelease napi_tsfn_release])
   \<and> (\<exists>l' w'. PrimeThread_pass napi_ok reporting_locals (three_sent True)
                  = Some (Inr (Running l' w'))
         \<and> idx_outer l' = 37814
         \<and> pending (heap w') (first l') [3, 2, 0]
         \<and> heap w' 1 = None
         \<and> queue w' = [3]
         \<and> trace w' = [Malloc 3, ThreadsafeCall 3,
                        MutexLock, Examine 3, MutexUnlock, MutexLock, Examine 2, MutexUnlock,
                        MutexLock, Examine 1, MutexUnlock, Free 1])
   \<and> (\<exists>w'. PrimeThread_pass napi_ok reporting_locals (three_sent False)
               = Some (Inr (Stopped w'))
         \<and> heap w' 3 = None \<and> heap w' 2 = None \<and> heap w' 0 = None
         \<and> queue w' = [3]
         \<and> trace w' = [Malloc 3, ThreadsafeCall 3,
                        MutexLock, Examine 3, MutexUnlock, MutexLock, Examine 2, MutexUnlock,
                        MutexLock, Examine 1, MutexUnlock,
                        Free 3, Free 2, Free 0, ThreadsafeRelease napi_tsfn_release])
   \<and> PrimeThread_pass napi_closing reporting_locals (three_sent True)
       = Some (Inl AssertFailed)"
proof -
  have p3: "pending (heap (three_sent True)) (first three_locals) [2, 1, 0]"
    by (simp add: three_sent_def three_locals_def)
  have p4: "pending (heap (three_sent True)) (first reporting_locals) [2, 1, 0]"
    by (simp add: three_sent_def reporting_locals_def)
  have b: "brk (three_sent v) = 3" for v by (simp add: three_sent_def)
  have m: "\<not> check_status_mutex (three_sent v)" for v by (simp add: three_sent_def)
  have i3: "idx_outer three_locals \<noteq> INT_MAX" by (simp add: three_locals_def INT_MAX_def)
  have i4: "idx_outer reporting_locals \<noteq> INT_MAX"
    by (simp add: reporting_locals_def INT_MAX_def)
  have u: "\<not> resolved (heap (three_sent v)) 2" for v by (simp add: three_sent_def resolved_def)
  have r: "resolved (heap (three_sent v)) 1" for v by (simp add: three_sent_def resolved_def)
  have t: "result_of (heap (three_sent True)) 1" by (simp add: three_sent_def result_of_def)
  have f: "\<not> result_of (heap (three_sent False)) 1" by (simp add: three_sent_def result_of_def)
  have dec: "[2, 1, 0] = [2] @ 1 # [0::addr] \<and> (\<forall>y\<in>set [2]. \<not> resolved (heap (three_sent v)) y)
               \<and> resolved (heap (three_sent v)) 1" for v
    using u r by simp
  have inst:
    "(\<forall>l0. PrimeThread_pass status l0 (three_sent v)
        = pass_rest (snd (report_test l0)) status (l0\<lparr>prime_count := fst (report_test l0)\<rparr>)
            (three_sent v))
     \<and> (report \<and> status \<noteq> napi_ok \<longrightarrow>
          pass_rest report status L (three_sent v) = Some (Inl AssertFailed))
     \<and> ((report \<longrightarrow> status = napi_ok) \<longrightarrow>
          (result_of (heap (three_sent v)) 1 \<longrightarrow>
             (\<exists>l' w'. pass_rest report status L (three_sent v) = Some (Inr (Running l' w'))
                \<and> idx_outer l' = idx_outer L + 1
                \<and> pending (heap w') (first l') (added report (three_sent v) @ [2] @ [0])
                \<and> heap w' 1 = None
                \<and> queue w' = queue (three_sent v) @ added report (three_sent v)
                \<and> trace w' = trace (three_sent v)
                    @ concat (map (\<lambda>b. [Malloc b, ThreadsafeCall b]) (added report (three_sent v)))
                    @ concat (map visit (added report (three_sent v) @ [2] @ [1])) @ [Free 1]))
          \<and> (\<not> result_of (heap (three_sent v)) 1 \<longrightarrow>
             (\<exists>w'. pass_rest report status L (three_sent v) = Some (Inr (Stopped w'))
                \<and> (\<forall>b\<in>set (added report (three_sent v) @ [2] @ [0]). heap w' b = None)
                \<and> heap w' 1 = heap (three_sent v) 1
                \<and> queue w' = queue (three_sent v) @ added report (three_sent v)
                \<and> trace w' = trace (three_sent v)
                    @ concat (map (\<lambda>b. [Malloc b, ThreadsafeCall b]) (added report (three_sent v)))
                    @ concat (map visit (added report (three_sent v) @ [2] @ [1]))
                    @ map Free (added report (three_sent v) @ [2] @ [0])
                    @ [ThreadsafeRelease napi_tsfn_release])))"
    if L: "first L = Some 2" "idx_outer L \<noteq> INT_MAX" for L v report status
  proof -
    have p: "pending (heap (three_sent v)) (first L) [2, 1, 0]"
      using L by (simp add: three_sent_def)
    have fr: "report \<longrightarrow> (\<forall>x\<in>set [2, 1, 0]. x < brk (three_sent v))"
      by (simp add: three_sent_def)
    from pass_outcome[OF p fr m L(2), where status = status] dec[of v]
    show ?thesis by blast
  qed
  have L3: "first (three_locals\<lparr>prime_count := 3000\<rparr>) = Some 2"
    "idx_outer (three_locals\<lparr>prime_count := 3000\<rparr>) \<noteq> INT_MAX"
    by (simp_all add: three_locals_def INT_MAX_def)
  have L4: "first (reporting_locals\<lparr>prime_count := 4000\<rparr>) = Some 2"
    "idx_outer (reporting_locals\<lparr>prime_count := 4000\<rparr>) \<noteq> INT_MAX"
    by (simp_all add: reporting_locals_def INT_MAX_def)
  have k3: "PrimeThread_pass napi_ok three_locals (three_sent v)
      = pass_rest False napi_ok (three_locals\<lparr>prime_count := 3000\<rparr>) (three_sent v)" for v
    using inst[OF L3, of napi_ok v False] by (simp add: report_test_three)
  have k4: "PrimeThread_pass status reporting_locals (three_sent v)
      = pass_rest True status (reporting_locals\<lparr>prime_count := 4000\<rparr>) (three_sent v)"
    for v status
    using inst[OF L4, of status v True] by (simp add: report_test_reporting)
  from inst[OF L3, of napi_ok True False] t
  have a3: "\<exists>l' w'. pass_rest False napi_ok (three_locals\<lparr>prime_count := 3000\<rparr>) (three_sent True)
                  = Some (Inr (Running l' w'))
         \<and> idx_outer l' = 27451
         \<and> pending (heap w') (first l') [2, 0]
         \<and> heap w' 1 = None
         \<and> queue w' = []
         \<and> trace w' = [MutexLock, Examine 2, MutexUnlock, MutexLock, Examine 1, MutexUnlock,
                        Free 1]"
    by (simp add: added_def three_sent_def visit_def three_locals_def)
  from inst[OF L3, of napi_ok False False] f
  have b3: "\<exists>w'. pass_rest False napi_ok (three_locals\<lparr>prime_count := 3000\<rparr>) (three_sent False)
               = Some (Inr (Stopped w'))
         \<and> heap w' 2 = None \<and> heap w' 0 = None
         \<and> queue w' = []
         \<and> trace w' = [MutexLock, Examine 2, MutexUnlock, MutexLock, Examine 1, MutexUnlock,
                        Free 2, Free 0, ThreadsafeRelease napi_tsfn_release]"
    by (auto simp: added_def three_sent_def visit_def three_locals_def)
  from inst[OF L4, of napi_ok True True] t
  have a4: "\<exists>l' w'. pass_rest True napi_ok (reporting_locals\<lparr>prime_count := 4000\<rparr>) (three_sent True)
                  = Some (Inr (Running l' w'))
         \<and> idx_outer l' = 37814
         \<and> pending (heap w') (first l') [3, 2, 0]
         \<and> heap w' 1 = None
         \<and> queue w' = [3]
         \<and> trace w' = [Malloc 3, ThreadsafeCall 3,
                        MutexLock, Examine 3, MutexUnlock, MutexLock, Examine 2, MutexUnlock,
                        MutexLock, Examine 1, MutexUnlock, Free 1]"
    by (simp add: added_def three_sent_def visit_def reporting_locals_def)
  from inst[OF L4, of napi_ok False True] f
  have b4: "\<exists>w'. pass_rest True napi_ok (reporting_locals\<lparr>prime_count := 4000\<rparr>) (three_sent False)
               = Some (Inr (Stopped w'))
         \<and> heap w' 3 = None \<and> heap w' 2 = None \<and> heap w' 0 = None
         \<and> queue w' = [3]
         \<and> trace w' = [Malloc 3, ThreadsafeCall 3,
                        MutexLock, Examine 3, MutexUnlock, MutexLock, Examine 2, MutexUnlock,
                        MutexLock, Examine 1, MutexUnlock,
                        Free 3, Free 2, Free 0, ThreadsafeRelease napi_tsfn_release]"
    by (auto simp: added_def three_sent_def visit_def reporting_locals_def)
  from inst[OF L4, of napi_closing True True]
  have c4: "pass_rest True napi_closing (reporting_locals\<lparr>prime_count := 4000\<rparr>) (three_sent True)
       = Some (Inl AssertFailed)"
    by simp
  show ?thesis
    using p3 p4 b m i3 i4 u r t f report_test_three report_test_reporting a3 b3 a4 b4 c4
    unfolding k3 k4 by blast
qed


subsection \<open>Which records a pass examines\<close>

text \<open>
  Claim C5, as stated, has every node of the pending list examined on each pass. With
  three records pending, the newest and the oldest unresolved and the middle one
  resolved, the scan examines the newest and the middle one and stops: the oldest is
  not examined in that pass.
\<close>

theorem scan_stops_counterexample:
  "examined_by_scan (Some 2) (three_sent True) = Some ([2, 1], Some 1)"
  by (simp add: examined_by_scan_def three_sent_def scan_pending.simps scan_node_def
        uv_mutex_lock_def uv_mutex_unlock_def emit_def Let_def)

text \<open>
  Claim C5, amended. On each pass the scan walks the pending list from its head, the
  most recently sent record first, and examines each record under the mutex until it
  finds a resolved one, where it stops: it examines exactly the unresolved records in
  front of the first resolved one and that one, and the whole list when no record is
  resolved. So it finds a resolved record wherever it is in the list, without assuming
  that records are resolved in the order they were sent; the records behind the one it
  found wait for a later pass.
\<close>

theorem scan_examines:
  assumes "pending (heap w) p xs" and "\<not> check_status_mutex w"
  shows "((\<forall>a\<in>set xs. \<not> resolved (heap w) a) \<longrightarrow> examined_by_scan p w = Some (xs, None))
     \<and> (\<forall>ys a zs. xs = ys @ a # zs \<and> (\<forall>y\<in>set ys. \<not> resolved (heap w) y)
           \<and> resolved (heap w) a \<longrightarrow>
          examined_by_scan p w = Some (ys @ [a], Some a))"
proof (intro conjI allI impI)
  assume "\<forall>a\<in>set xs. \<not> resolved (heap w) a"
  from scan_unresolved[OF assms(1) this assms(2), of None p]
  show "examined_by_scan p w = Some (xs, None)"
    by (simp add: examined_by_scan_def examinations_visits)
next
  fix ys a zs
  assume dec: "xs = ys @ a # zs \<and> (\<forall>y\<in>set ys. \<not> resolved (heap w) y) \<and> resolved (heap w) a"
  with assms have p: "pending (heap w) p (ys @ a # zs)" by simp
  then have d: "distinct (ys @ a # zs)" by (rule pending_distinct)
  from scan_finds[OF p d _ _ assms(2)] dec obtain w1 head1 where
    scan: "scan_pending p None None p w = Some (Inr (w1, head1, Some a))"
    and w1: "w1 = emit (concat (map visit (ys @ [a])))
                     (w\<lparr>heap := unhook (if ys = [] then None else Some (last ys)) a (heap w)\<rparr>)"
    by blast
  have "examinations (drop (length (trace w)) (trace w1)) = ys @ [a]"
    unfolding w1 using examinations_visits[of "ys @ [a]"] by simp
  with scan show "examined_by_scan p w = Some (ys @ [a], Some a)"
    by (simp add: examined_by_scan_def)
qed

theorem scan_examines_witness:
  "pending (heap (three_sent False)) (Some 2) [2, 1, 0]
   \<and> \<not> check_status_mutex (three_sent False)
   \<and> \<not> resolved (heap (three_sent False)) 2
   \<and> resolved (heap (three_sent False)) 1
   \<and> examined_by_scan (Some 2) (three_sent False) = Some ([2, 1], Some 1)"
proof -
  have p: "pending (heap (three_sent False)) (Some 2) [2, 1, 0]"
    by (simp add: three_sent_def)
  have m: "\<not> check_status_mutex (three_sent False)" by (simp add: three_sent_def)
  have u: "\<not> resolved (heap (three_sent False)) 2" by (simp add: three_sent_def resolved_def)
  have r: "resolved (heap (three_sent False)) 1" by (simp add: three_sent_def resolved_def)
  have dec: "[2, 1, 0] = [2] @ 1 # [0::addr]
               \<and> (\<forall>y\<in>set [2]. \<not> resolved (heap (three_sent False)) y)
               \<and> resolved (heap (three_sent False)) 1"
    using u r by simp
  from scan_examines[OF p m] dec
  have "examined_by_scan (Some 2) (three_sent False) = Some ([2] @ [1], Some 1)" by blast
  then show ?thesis using p m u r by simp
qed

subsection \<open>The finalize callback\<close>

text \<open>
  Claim C2, on the bridge as the specification describes it. In every execution, that
  is after any sequence of acquire, call, release (in either mode) and dispatch
  operations, by any number of producers, on a bridge created with at least one
  reference, and free of contract violations: the finalize callback has been invoked at
  most once; it has been invoked, once, exactly when the bridge is \<open>closed\<close>; a
  \<open>closed\<close> bridge has a reference count of zero and an empty queue; and once the
  count is zero and the queue is empty the dispatcher's next step leaves the bridge
  \<open>closed\<close> and finalized.
\<close>

theorem finalize_once:
  assumes "1 \<le> n" and "run_ops ops (create cap n) = Inr b"
  shows "finalize_calls b \<le> 1
    \<and> (finalize_calls b = 1 \<longleftrightarrow> lifecycle_state b = Closed)
    \<and> (lifecycle_state b = Closed \<longrightarrow> ref_count b = 0 \<and> items b = [])
    \<and> (ref_count b = 0 \<and> items b = [] \<longrightarrow>
          lifecycle_state (dispatch b) = Closed \<and> finalize_calls (dispatch b) = 1)"
proof -
  from run_ops_inv[OF create_inv[OF assms(1)] assms(2)] have inv: "bridge_inv b" .
  then show ?thesis
    by (cases "lifecycle_state b") (auto simp: bridge_inv_def dispatch_def)
qed

theorem finalize_once_witness:
  "(1::nat) \<le> 1
   \<and> run_ops [Acquire, Call (7::nat) napi_tsfn_blocking, Release napi_tsfn_release,
               Release napi_tsfn_release, Dispatch, Dispatch] (create 20 1)
       = Inr \<lparr>lifecycle_state = Closed, ref_count = 0, items = [], max_queue_size = 20,
              processed = [7], drained = [], finalize_calls = 1\<rparr>
   \<and> run_ops [Acquire, Call (7::nat) napi_tsfn_blocking, Release napi_tsfn_release,
               Release napi_tsfn_release] (create 20 1)
       = Inr \<lparr>lifecycle_state = Closing, ref_count = 0, items = [7], max_queue_size = 20,
              processed = [], drained = [], finalize_calls = 0\<rparr>"
proof -
  have h: "(1::nat) \<le> 1" by simp
  have r: "run_ops [Acquire, Call (7::nat) napi_tsfn_blocking, Release napi_tsfn_release,
               Release napi_tsfn_release, Dispatch, Dispatch] (create 20 1)
       = Inr \<lparr>lifecycle_state = Closed, ref_count = 0, items = [], max_queue_size = 20,
              processed = [7], drained = [], finalize_calls = 1\<rparr>"
    by (simp add: apply_op_def acquire_def call_def release_def dispatch_def create_def)
  have r': "run_ops [Acquire, Call (7::nat) napi_tsfn_blocking, Release napi_tsfn_release,
               Release napi_tsfn_release] (create 20 1)
       = Inr \<lparr>lifecycle_state = Closing, ref_count = 0, items = [7], max_queue_size = 20,
              processed = [], drained = [], finalize_calls = 0\<rparr>"
    by (simp add: apply_op_def acquire_def call_def release_def dispatch_def create_def)
  from finalize_once[OF h r] finalize_once[OF h r'] h r r' show ?thesis by simp
qed

subsection \<open>Items dispatched in cleanup mode\<close>

text \<open>
  Claim C3, as stated, has the dispatch of every item after \<open>closed\<close> still free the
  item. In the round-trip example \<open>CallJs\<close>, called in cleanup mode, does nothing: the
  item stays allocated.
\<close>

theorem CallJs_cleanup_counterexample:
  "CallJs None None 0 one_item_world = Inr one_item_world
   \<and> heap one_item_world 0 \<noteq> None"
  by (simp add: CallJs_def one_item_world_def empty_world_def)

text \<open>
  Claim C3, amended. For an item dispatched in cleanup mode (\<open>env\<close> or the callback is
  \<open>NULL\<close>) the JavaScript callback is not called. In the even/odd example
  \<open>call_into_javascript\<close> still joins the finished producer thread and frees its data
  when the item is marked, and frees the item. In the round-trip example \<open>CallJs\<close> does
  nothing at all in that case: it neither frees the item nor joins the thread (the
  items are freed by the producer thread, the thread is joined by \<open>ThreadFinished\<close>).
\<close>

theorem cleanup_mode:
  assumes "env = None \<or> js_callback = None"
  shows "(\<forall>item. js_items m data = Some item \<longrightarrow>
           call_into_javascript env js_callback data m =
             (case thread_to_join item of
                None \<Rightarrow> Inr (m\<lparr>js_items := (js_items m)(data := None),
                                performed := performed m @ [FreeItem data]\<rparr>)
              | Some td \<Rightarrow>
                  (case thread_datas m td of
                     None \<Rightarrow> Inl (UseAfterFree td)
                   | Some thread_data \<Rightarrow>
                       Inr (m\<lparr>thread_datas := (thread_datas m)(td := None),
                              js_items := (js_items m)(data := None),
                              performed := performed m @ [UvThreadJoin (thread thread_data),
                                                          FreeThreadData td, FreeItem data]\<rparr>))))
         \<and> CallJs env js_callback pointer w = Inr w"
  using assms by (auto simp: call_into_javascript_def CallJs_def split: option.splits)

theorem cleanup_mode_witness:
  "js_items last_item_memory 5 = Some \<lparr>item_value = 198, thread_to_join = Some 9\<rparr>
   \<and> call_into_javascript None None 5 last_item_memory =
       Inr \<lparr>js_items = Map.empty, thread_datas = Map.empty,
             performed = [UvThreadJoin 3, FreeThreadData 9, FreeItem 5]\<rparr>
   \<and> CallJs None None 0 one_item_world = Inr one_item_world"
proof -
  have i: "js_items last_item_memory 5 = Some \<lparr>item_value = 198, thread_to_join = Some 9\<rparr>"
    by (simp add: last_item_memory_def)
  have e: "(None::nat option) = None \<or> (None::nat option) = None" by simp
  from cleanup_mode[OF e, of last_item_memory 5 0 one_item_world] i show ?thesis
    by (simp add: last_item_memory_def)
qed

subsection \<open>The statuses of a call and what the producers do with them\<close>

text \<open>
  Claim C6. A call into the bridge, when it returns, returns \<open>ok\<close> with the item
  enqueued, or \<open>closing\<close>, which it does once teardown has begun, or \<open>queue_full\<close>,
  which it does only in non-blocking mode on a bounded queue that is full. The
  producers of the code stop at \<open>closing\<close>: in \<open>one_thread\<close> the call that returned
  \<open>closing\<close> is the thread's last operation on the bridge (it returns without a release
  and without touching the item), and in \<open>PrimeThread\<close> any status other than \<open>ok\<close>
  fails the assertion around the call, which ends the process.
\<close>

theorem call_statuses:
  "(call item mode b = Inr (Some napi_ok, b') \<longrightarrow>
      lifecycle_state b = Open \<and> b' = b\<lparr>items := items b @ [item]\<rparr>)
   \<and> (call item mode b = Inr (Some napi_closing, b') \<longrightarrow>
      lifecycle_state b = Closing \<and> b' = b)
   \<and> (call item mode b = Inr (Some napi_queue_full, b') \<longrightarrow>
      mode = napi_tsfn_nonblocking \<and> 0 < max_queue_size b
      \<and> max_queue_size b \<le> length (items b) \<and> b' = b)
   \<and> (one_thread respond td d = pre @ TsCall sent napi_closing # post \<longrightarrow> post = [])
   \<and> (status \<noteq> napi_ok \<longrightarrow>
      new_item status l w = Inl AssertFailed
      \<and> pass_rest True status l w = Some (Inl AssertFailed))"
proof -
  have a: "call item mode b = Inr (Some napi_ok, b') \<longrightarrow>
      lifecycle_state b = Open \<and> b' = b\<lparr>items := items b @ [item]\<rparr>"
    by (cases "lifecycle_state b")
       (auto simp: call_def split: if_splits napi_threadsafe_function_call_mode.splits)
  have c: "call item mode b = Inr (Some napi_closing, b') \<longrightarrow>
      lifecycle_state b = Closing \<and> b' = b"
    by (auto simp: call_def split: if_splits napi_threadsafe_function_call_mode.splits)
  have q: "call item mode b = Inr (Some napi_queue_full, b') \<longrightarrow>
      mode = napi_tsfn_nonblocking \<and> 0 < max_queue_size b
      \<and> max_queue_size b \<le> length (items b) \<and> b' = b"
    by (auto simp: call_def split: if_splits napi_threadsafe_function_call_mode.splits)
  have t: "one_thread respond td d = pre @ TsCall sent napi_closing # post \<longrightarrow> post = []"
  proof
    assume eq: "one_thread respond td d = pre @ TsCall sent napi_closing # post"
    then obtain pre' where "pre = TsAcquire # pre'"
      by (cases pre) (auto simp: one_thread_def)
    with eq have "one_thread_loop respond td d 0 = pre' @ TsCall sent napi_closing # post"
      by (simp add: one_thread_def)
    then show "post = []" by (rule loop_stops_at_closing)
  qed
  have p: "status \<noteq> napi_ok \<longrightarrow>
      new_item status l w = Inl AssertFailed
      \<and> pass_rest True status l w = Some (Inl AssertFailed)"
    by (simp add: new_item_def pass_rest_def Let_def)
  show ?thesis using a c q t p by blast
qed

theorem call_statuses_witness:
  "call 12 napi_tsfn_nonblocking full_bridge = Inr (Some napi_queue_full, full_bridge)
   \<and> call 12 napi_tsfn_blocking full_bridge = Inr (None, full_bridge)
   \<and> call 12 napi_tsfn_blocking (full_bridge\<lparr>lifecycle_state := Closing\<rparr>)
       = Inr (Some napi_closing, full_bridge\<lparr>lifecycle_state := Closing\<rparr>)
   \<and> call 12 napi_tsfn_blocking (full_bridge\<lparr>max_queue_size := 0\<rparr>)
       = Inr (Some napi_ok, full_bridge\<lparr>max_queue_size := 0, items := [10, 11, 12]\<rparr>)
   \<and> one_thread (closing_at 1) 9 \<lparr>thread = 3, is_even = True\<rparr>
       = [TsAcquire, TsCall \<lparr>item_value = 0, thread_to_join = None\<rparr> napi_ok]
         @ TsCall \<lparr>item_value = 2, thread_to_join = None\<rparr> napi_closing # []
   \<and> new_item napi_closing PrimeThread_start empty_world = Inl AssertFailed"
proof -
  have q: "call 12 napi_tsfn_nonblocking full_bridge = Inr (Some napi_queue_full, full_bridge)"
    by (simp add: call_def full_bridge_def)
  have s: "call 12 napi_tsfn_blocking full_bridge = Inr (None, full_bridge)"
    by (simp add: call_def full_bridge_def)
  have c: "call 12 napi_tsfn_blocking (full_bridge\<lparr>lifecycle_state := Closing\<rparr>)
       = Inr (Some napi_closing, full_bridge\<lparr>lifecycle_state := Closing\<rparr>)"
    by (simp add: call_def full_bridge_def)
  have k: "call 12 napi_tsfn_blocking (full_bridge\<lparr>max_queue_size := 0\<rparr>)
       = Inr (Some napi_ok, full_bridge\<lparr>max_queue_size := 0, items := [10, 11, 12]\<rparr>)"
    by (simp add: call_def full_bridge_def)
  have t: "one_thread (closing_at 1) 9 \<lparr>thread = 3, is_even = True\<rparr>
       = [TsAcquire, TsCall \<lparr>item_value = 0, thread_to_join = None\<rparr> napi_ok]
         @ TsCall \<lparr>item_value = 2, thread_to_join = None\<rparr> napi_closing # []"
    by (simp add: one_thread_def loop_go_on loop_closing closing_at_def ITERATION_COUNT_def
          make_item_def)
  have n: "napi_closing \<noteq> napi_ok" by simp
  from call_statuses[of 12 napi_tsfn_nonblocking full_bridge full_bridge
        "closing_at 1" 9 "\<lparr>thread = 3, is_even = True\<rparr>"
        "[TsAcquire, TsCall \<lparr>item_value = 0, thread_to_join = None\<rparr> napi_ok]"
        "\<lparr>item_value = 2, thread_to_join = None\<rparr>" "[]"
        napi_closing PrimeThread_start empty_world] n
  have "new_item napi_closing PrimeThread_start empty_world = Inl AssertFailed" by blast
  with q s c k t show ?thesis by blast
qed


end
